theory Spec2Isabelle
  imports Main "HOL-Library.AList"
begin

section \<open>The regular expressions of the parser\<close>

text \<open>
  \<^verbatim>\<open>retrosheetParser.py\<close> does all its string work through Python's \<^verbatim>\<open>re\<close> module.
  The patterns it uses are built from literal text, character classes, \<^verbatim>\<open>.\<close>, the anchors
  \<^verbatim>\<open>^\<close> and \<^verbatim>\<open>$\<close>, sequence, alternation, \<^verbatim>\<open>?\<close>, and \<^verbatim>\<open>*\<close>/\<^verbatim>\<open>+\<close> applied to one
  character class. A pattern is a value of \<open>rx\<close>; the matcher returns, in the order in
  which Python's backtracking tries them, the rests of the subject that a match can leave.
\<close>

datatype cset =
    One char        \<comment> \<open>a literal character\<close>
  | OneOf string    \<comment> \<open>\<^verbatim>\<open>[...]\<close>\<close>
  | NoneOf string   \<comment> \<open>\<^verbatim>\<open>[^...]\<close>\<close>
  | AnyChar         \<comment> \<open>\<^verbatim>\<open>.\<close>: every character but the newline\<close>

datatype rx =
    Chr cset
  | Str string      \<comment> \<open>literal text\<close>
  | Star cset       \<comment> \<open>\<^verbatim>\<open>c*\<close>, greedy\<close>
  | Plus cset       \<comment> \<open>\<^verbatim>\<open>c+\<close>, greedy\<close>
  | Bos             \<comment> \<open>\<^verbatim>\<open>^\<close>\<close>
  | Eos             \<comment> \<open>\<^verbatim>\<open>$\<close>\<close>
  | Seq rx rx
  | Alt rx rx
  | Opt rx          \<comment> \<open>\<^verbatim>\<open>r?\<close>, greedy\<close>

definition newline :: char where
  "newline = CHR 0x0A"

fun cmem :: "cset \<Rightarrow> char \<Rightarrow> bool" where
  "cmem (One a) c = (c = a)"
| "cmem (OneOf cs) c = (c \<in> set cs)"
| "cmem (NoneOf cs) c = (c \<notin> set cs)"
| "cmem AnyChar c = (c \<noteq> newline)"

text \<open>The rests after \<^verbatim>\<open>c*\<close>: the longest run first.\<close>

primrec star_rests :: "cset \<Rightarrow> string \<Rightarrow> string list" where
  "star_rests cs [] = [[]]"
| "star_rests cs (c # s) = (if cmem cs c then star_rests cs s else []) @ [c # s]"

text \<open>
  \<open>rests n p s\<close>: \<open>s\<close> is what is left of a subject of length \<open>n\<close>; the result lists what
  is left after \<open>p\<close> has matched at the front of \<open>s\<close>. \<^verbatim>\<open>^\<close> matches only at the start of
  the subject; \<^verbatim>\<open>$\<close> matches at its end and before a newline that ends it.
\<close>

fun rests :: "nat \<Rightarrow> rx \<Rightarrow> string \<Rightarrow> string list" where
  "rests n (Chr cs) s = (case s of [] \<Rightarrow> [] | c # r \<Rightarrow> if cmem cs c then [r] else [])"
| "rests n (Str w) s = (if take (length w) s = w then [drop (length w) s] else [])"
| "rests n (Star cs) s = star_rests cs s"
| "rests n (Plus cs) s = (case s of [] \<Rightarrow> [] | c # r \<Rightarrow> if cmem cs c then star_rests cs r else [])"
| "rests n Bos s = (if length s = n then [s] else [])"
| "rests n Eos s = (if s = [] \<or> s = [newline] then [s] else [])"
| "rests n (Seq p q) s = concat (map (rests n q) (rests n p s))"
| "rests n (Alt p q) s = rests n p s @ rests n q s"
| "rests n (Opt p) s = rests n p s @ [s]"

text \<open>\<^verbatim>\<open>re.match(p, s) is not None\<close>: the pattern matches at the start of \<open>s\<close>.\<close>

definition re_match :: "rx \<Rightarrow> string \<Rightarrow> bool" where
  "re_match p s = (rests (length s) p s \<noteq> [])"

text \<open>\<^verbatim>\<open>re.search(p, s) is not None\<close>: the pattern matches somewhere in \<open>s\<close>.\<close>

fun search_from :: "nat \<Rightarrow> rx \<Rightarrow> string \<Rightarrow> bool" where
  "search_from n p [] = (rests n p [] \<noteq> [])"
| "search_from n p (c # s) = (rests n p (c # s) \<noteq> [] \<or> search_from n p s)"

definition re_search :: "rx \<Rightarrow> string \<Rightarrow> bool" where
  "re_search p s = search_from (length s) p s"

text \<open>
  The first match at the front of \<open>s\<close>, as the matched text and the rest. The second
  function is for a pattern of the shape \<^verbatim>\<open>pre(grp)?\<close>, whose one capturing group is
  optional and last: it gives the text of the group, the empty string when the group took
  no part (what \<^verbatim>\<open>re.findall\<close> reports for such a group).
\<close>

definition first_match :: "nat \<Rightarrow> rx \<Rightarrow> string \<Rightarrow> (string \<times> string) option" where
  "first_match n p s =
     (case rests n p s of [] \<Rightarrow> None | r # _ \<Rightarrow> Some (take (length s - length r) s, r))"

definition first_group :: "nat \<Rightarrow> rx \<Rightarrow> rx \<Rightarrow> string \<Rightarrow> (string \<times> string) option" where
  "first_group n pre grp s =
     (case rests n pre s of
        [] \<Rightarrow> None
      | r1 # _ \<Rightarrow>
          (case rests n grp r1 of
             [] \<Rightarrow> Some ([], r1)
           | r2 # _ \<Rightarrow> Some (take (length r1 - length r2) r1, r2)))"

text \<open>
  The left-to-right scan behind \<^verbatim>\<open>re.findall\<close>, \<^verbatim>\<open>re.sub\<close> and \<^verbatim>\<open>re.split\<close>: the
  non-overlapping matches, each with the unmatched text before it, and the unmatched text
  after the last one. No pattern of the parser matches the empty string; a match that
  consumes nothing counts as no match here.
\<close>

fun scan :: "(string \<Rightarrow> (string \<times> string) option) \<Rightarrow> string \<Rightarrow> string
    \<Rightarrow> (string \<times> string) list \<times> string" where
  "scan mt gap [] = ([], gap)"
| "scan mt gap (c # s) =
     (case mt (c # s) of
        None \<Rightarrow> scan mt (gap @ [c]) s
      | Some (x, r) \<Rightarrow>
          if length r < length (c # s)
          then (case scan mt [] r of (ps, t) \<Rightarrow> ((gap, x) # ps, t))
          else scan mt (gap @ [c]) s)"

definition re_findall :: "rx \<Rightarrow> string \<Rightarrow> string list" where
  "re_findall p s = map snd (fst (scan (first_match (length s) p) [] s))"

definition re_findall_group :: "rx \<Rightarrow> rx \<Rightarrow> string \<Rightarrow> string list" where
  "re_findall_group pre grp s = map snd (fst (scan (first_group (length s) pre grp) [] s))"

text \<open>\<^verbatim>\<open>re.sub(p, "", s)\<close>: every replacement in the source is the empty string.\<close>

definition re_sub_empty :: "rx \<Rightarrow> string \<Rightarrow> string" where
  "re_sub_empty p s =
     (case scan (first_match (length s) p) [] s of (ps, t) \<Rightarrow> concat (map fst ps) @ t)"

definition re_split :: "rx \<Rightarrow> string \<Rightarrow> string list" where
  "re_split p s =
     (case scan (first_match (length s) p) [] s of (ps, t) \<Rightarrow> map fst ps @ [t])"

text \<open>\<^verbatim>\<open>s.strip(chars)\<close>\<close>

definition strip :: "string \<Rightarrow> string \<Rightarrow> string" where
  "strip chars s =
     rev (dropWhile (\<lambda>c. c \<in> set chars) (rev (dropWhile (\<lambda>c. c \<in> set chars) s)))"

section \<open>Errors\<close>

datatype py_error =
    Syntax_error        \<comment> \<open>\<^verbatim>\<open>Exception("Syntax error")\<close>\<close>
  | ValueError
  | UnboundLocalError
  | IndexError

text \<open>A list comprehension whose body can raise stops at the first error.\<close>

fun map_err :: "('a \<Rightarrow> py_error + 'b) \<Rightarrow> 'a list \<Rightarrow> py_error + 'b list" where
  "map_err f [] = Inr []"
| "map_err f (x # xs) =
     (case f x of
        Inl e \<Rightarrow> Inl e
      | Inr y \<Rightarrow> (case map_err f xs of Inl e \<Rightarrow> Inl e | Inr ys \<Rightarrow> Inr (y # ys)))"

section \<open>Splitting\<close>

text \<open>The two separator patterns the source passes: \<^verbatim>\<open>"\/|\."\<close> (the default) and \<^verbatim>\<open>'\+'\<close>.\<close>

definition sep_slash_dot :: rx where
  "sep_slash_dot = Alt (Chr (One (CHR ''/''))) (Chr (One (CHR ''.'')))"

definition sep_plus :: rx where
  "sep_plus = Chr (One (CHR ''+''))"

text \<open>\<^verbatim>\<open>"(^(" + separators + "))|((" + separators + ")$)"\<close>\<close>

definition edge_seps :: "rx \<Rightarrow> rx" where
  "edge_seps separators = Alt (Seq Bos separators) (Seq separators Eos)"

text \<open>\<^verbatim>\<open>[sentence[i:j] for i,j in zip(l,l[1:])]\<close>\<close>

definition slices :: "string \<Rightarrow> nat list \<Rightarrow> string list" where
  "slices sentence l = map (\<lambda>(i, j). take (j - i) (drop i sentence)) (zip l (tl l))"

text \<open>
  The loop of \<^verbatim>\<open>split_sep_rspct_paren\<close> over \<^verbatim>\<open>enumerate(sentence)\<close>, from index \<open>i\<close>
  with the counter \<open>nb_brackets\<close> and the list \<open>l\<close> of split points.
\<close>

fun split_loop :: "rx \<Rightarrow> nat \<Rightarrow> int \<Rightarrow> nat list \<Rightarrow> string \<Rightarrow> py_error + (int \<times> nat list)" where
  "split_loop separators i nb_brackets l [] = Inr (nb_brackets, l)"
| "split_loop separators i nb_brackets l (c # cs) =
     (case (if c = CHR ''('' then (nb_brackets + 1, l)
            else if c = CHR '')'' then (nb_brackets - 1, l)
            else if re_match separators [c] \<and> nb_brackets = 0 then (nb_brackets, l @ [i])
            else (nb_brackets, l)) of
        (nb', l') \<Rightarrow>
          if nb' < 0 then Inl Syntax_error
          else split_loop separators (Suc i) nb' l' cs)"

definition split_sep_rspct_paren :: "string \<Rightarrow> rx \<Rightarrow> py_error + string list" where
  "split_sep_rspct_paren sentence0 separators =
     (let sentence = re_sub_empty (edge_seps separators) sentence0 in
      case split_loop separators 0 0 [0] sentence of
        Inl e \<Rightarrow> Inl e
      | Inr (nb_brackets, l) \<Rightarrow>
          if nb_brackets > 0 then Inl Syntax_error
          else Inr (slices sentence (l @ [length sentence])))"

text \<open>The loop of \<^verbatim>\<open>_event_splitter\<close>, with \<open>prev_char_right_par\<close> as well.\<close>

fun event_loop :: "nat \<Rightarrow> int \<Rightarrow> bool \<Rightarrow> nat list \<Rightarrow> string \<Rightarrow> py_error + (int \<times> nat list)" where
  "event_loop i nb_brackets prev_char_right_par l [] = Inr (nb_brackets, l)"
| "event_loop i nb_brackets prev_char_right_par l (c # cs) =
     (case (if c = CHR ''('' then (nb_brackets + 1, l)
            else if c = CHR '')'' then (nb_brackets - 1, l)
            else if prev_char_right_par \<and> nb_brackets = 0 then (nb_brackets, l @ [i])
            else (nb_brackets, l)) of
        (nb', l') \<Rightarrow>
          if nb' < 0 then Inl Syntax_error
          else event_loop (Suc i) nb' (c = CHR '')'') l' cs)"

definition event_splitter :: "string \<Rightarrow> py_error + string list" where
  "event_splitter sentence =
     (case event_loop 0 0 False [0] sentence of
        Inl e \<Rightarrow> Inl e
      | Inr (nb_brackets, l) \<Rightarrow>
          if nb_brackets > 0 then Inl Syntax_error
          else Inr (slices sentence (l @ [length sentence])))"

definition subevent_splitter :: "string \<Rightarrow> py_error + string list" where
  "subevent_splitter event =
     (case split_sep_rspct_paren event sep_plus of
        Inl e \<Rightarrow> Inl e
      | Inr splits \<Rightarrow>
          (case map_err event_splitter splits of
             Inl e \<Rightarrow> Inl e
           | Inr parts \<Rightarrow> Inr (map (strip ''+'') (concat parts))))"

record playSplit =
  event :: string
  mods :: "string list"
  advs :: "string list"

definition playSplitter :: "string \<Rightarrow> py_error + playSplit" where
  "playSplitter play =
     (case split_sep_rspct_paren play sep_slash_dot of
        Inl e \<Rightarrow> Inl e
      | Inr [] \<Rightarrow> Inl IndexError
      | Inr (e # rest) \<Rightarrow>
          (let l = e # rest;
               (a, m) =
                 (if re_match (Chr (One (CHR ''.''))) (last l)
                  then (re_split (Chr (One (CHR '';''))) (strip ''.'' (last l)), butlast (tl l))
                  else ([], tl l))
           in Inr \<lparr>event = e,
                   mods = map (re_sub_empty (Seq Bos (Chr (One (CHR ''/''))))) m,
                   advs = a\<rparr>))"

section \<open>Classifying a sub-event\<close>

record subevent =
  sub_basicPlay :: string
  sub_playersOut :: "string list"
  sub_implicitAdvances :: "string list"

definition digit19 :: cset where
  "digit19 = OneOf ''123456789''"

text \<open>\<^verbatim>\<open>\([1-3B]\)\<close>\<close>

definition rx_paren_base :: rx where
  "rx_paren_base =
     Seq (Chr (One (CHR ''(''))) (Seq (Chr (OneOf ''123B'')) (Chr (One (CHR '')''))))"

text \<open>\<^verbatim>\<open>[1-9]+(\([1-3B]\))?$\<close>\<close>

definition rx_out :: rx where
  "rx_out = Seq (Plus digit19) (Seq (Opt rx_paren_base) Eos)"

text \<open>\<^verbatim>\<open>E[1-9]\<close>\<close>

definition rx_E19 :: rx where
  "rx_E19 = Seq (Chr (One (CHR ''E''))) (Chr digit19)"

text \<open>\<^verbatim>\<open>[1-9]+(\([1-3B]\))?.*E[1-9]\<close>\<close>

definition rx_fielding_error :: rx where
  "rx_fielding_error =
     Seq (Plus digit19) (Seq (Opt rx_paren_base) (Seq (Star AnyChar) rx_E19))"

text \<open>\<^verbatim>\<open>\(|\)\<close>\<close>

definition rx_paren :: rx where
  "rx_paren = Alt (Chr (One (CHR ''(''))) (Chr (One (CHR '')'')))"

text \<open>\<^verbatim>\<open>C$\<close>, \<^verbatim>\<open>W$\<close>, and \<^verbatim>\<open>S[1-9]*$\<close>, \<^verbatim>\<open>D[1-9]*$\<close>, \<^verbatim>\<open>T[1-9]*$\<close>\<close>

definition rx_alone :: "char \<Rightarrow> rx" where
  "rx_alone c = Seq (Chr (One c)) Eos"

definition rx_hit :: "char \<Rightarrow> rx" where
  "rx_hit c = Seq (Chr (One c)) (Seq (Star digit19) Eos)"

text \<open>\<^verbatim>\<open>H[^P]\<close>\<close>

definition rx_home_run :: rx where
  "rx_home_run = Seq (Chr (One (CHR ''H''))) (Chr (NoneOf ''P''))"

text \<open>\<^verbatim>\<open>CS[2-3H]\<close>, \<^verbatim>\<open>SB(2|3|H)?\<close>, \<^verbatim>\<open>E[0-9]\<close>, \<^verbatim>\<open>PO[1-3]\<close>, \<^verbatim>\<open>POCS[2-3H]\<close>\<close>

definition rx_CS :: rx where
  "rx_CS = Seq (Str ''CS'') (Chr (OneOf ''23H''))"

definition rx_SB :: rx where
  "rx_SB =
     Seq (Str ''SB'')
       (Opt (Alt (Chr (One (CHR ''2''))) (Alt (Chr (One (CHR ''3''))) (Chr (One (CHR ''H''))))))"

definition rx_E09 :: rx where
  "rx_E09 = Seq (Chr (One (CHR ''E''))) (Chr (OneOf ''0123456789''))"

definition rx_PO :: rx where
  "rx_PO = Seq (Str ''PO'') (Chr (OneOf ''123''))"

definition rx_POCS :: rx where
  "rx_POCS = Seq (Str ''POCS'') (Chr (OneOf ''23H''))"

text \<open>
  The group of \<^verbatim>\<open>PO[1-3](\([1-9]*E[1-9])?\<close> and of \<^verbatim>\<open>POCS[2-3H](\([1-9]*E[1-9])?\<close>:
  \<^verbatim>\<open>\([1-9]*E[1-9]\<close>. With a group in the pattern, \<^verbatim>\<open>re.findall\<close> returns the text of
  the group for each match, not the text of the match.
\<close>

definition rx_error_group :: rx where
  "rx_error_group = Seq (Chr (One (CHR ''(''))) (Seq (Star digit19) rx_E19)"

text \<open>
  The \<^verbatim>\<open>if bbs == 'H' ... elif bbs == '3' ... elif bbs == '2'\<close> chain that assigns \<open>br\<close>:
  when no branch is taken \<open>br\<close> keeps the value it had, none on the first round.
\<close>

definition base_before :: "string \<Rightarrow> string option \<Rightarrow> string option" where
  "base_before bbs br =
     (if bbs = ''H'' then Some ''3''
      else if bbs = ''3'' then Some ''2''
      else if bbs = ''2'' then Some ''1''
      else br)"

text \<open>The loop of the \<^verbatim>\<open>CS[2-3H]\<close> rule over \<^verbatim>\<open>re.findall('CS[2-3H]',s)\<close>.\<close>

fun cs_loop :: "string list \<Rightarrow> string option \<Rightarrow> string list
    \<Rightarrow> py_error + (string option \<times> string list)" where
  "cs_loop [] br out = Inr (br, out)"
| "cs_loop (r # rs) br out =
     (case base_before (strip ''CS'' r) br of
        None \<Rightarrow> Inl UnboundLocalError
      | Some b \<Rightarrow> cs_loop rs (Some b) (out @ [b]))"

text \<open>The loop of the \<^verbatim>\<open>PO[1-3]\<close> rule over the groups that \<^verbatim>\<open>re.findall\<close> returns.\<close>

fun po_loop :: "string list \<Rightarrow> string \<Rightarrow> string list \<Rightarrow> string \<times> string list" where
  "po_loop [] p out = (p, out)"
| "po_loop (r # rs) p out =
     (if re_search rx_E19 r then po_loop rs ''Picked Off Base - Error'' out
      else po_loop rs p (out @ [re_sub_empty (Str ''PO'') r]))"

text \<open>The two nested loops of the \<^verbatim>\<open>POCS[2-3H]\<close> rule.\<close>

fun pocs_inner :: "string list \<Rightarrow> string option \<Rightarrow> string list
    \<Rightarrow> py_error + (string option \<times> string list)" where
  "pocs_inner [] br out = Inr (br, out)"
| "pocs_inner (r # rs) br out =
     (case strip ''POCS'' r of
        [] \<Rightarrow> Inl IndexError
      | c # _ \<Rightarrow>
          (case base_before [c] br of
             None \<Rightarrow> Inl UnboundLocalError
           | Some b \<Rightarrow> pocs_inner rs (Some b) (out @ [b])))"

fun pocs_loop :: "string \<Rightarrow> string list \<Rightarrow> string \<Rightarrow> string option \<Rightarrow> string list
    \<Rightarrow> py_error + (string \<times> string list)" where
  "pocs_loop s [] p br out = Inr (p, out)"
| "pocs_loop s (r # rs) p br out =
     (if re_search rx_E19 r
      then pocs_loop s rs ''Picked Off Base Caught Stealing - Error'' br out
      else (case pocs_inner (re_findall rx_POCS s) br out of
              Inl e \<Rightarrow> Inl e
            | Inr (br', out') \<Rightarrow> pocs_loop s rs p br' out'))"

definition result :: "string \<Rightarrow> string list \<Rightarrow> string list \<Rightarrow> py_error + subevent" where
  "result p out imp =
     Inr \<lparr>sub_basicPlay = p, sub_playersOut = out, sub_implicitAdvances = imp\<rparr>"

definition subeventParser :: "string \<Rightarrow> py_error + subevent" where
  "subeventParser s =
     (if re_match rx_out s then
        (let pOut = map (re_sub_empty rx_paren) (re_findall rx_paren_base s) in
         if length pOut = 0 then result ''Out'' [''B''] []
         else if hd pOut = ''B'' then result ''Out'' [''B''] []
         else result ''Out'' [hd pOut] [])
      else if re_match rx_fielding_error s then result ''Error'' [] []
      else if re_match (Str ''FC'') s then result ''Fielder's Choice'' [] [''B-1'']
      else if re_match (rx_alone (CHR ''C'')) s then result ''Interference'' [] [''B-1'']
      else if re_match (Str ''NP'') s then result ''No Play'' [] []
      else if re_match (Str ''K'') s then result ''Strikeout'' [''B''] []
      else if re_match rx_home_run s then result ''Hit - Home Run'' [] [''B-H'']
      else if re_match (Str ''HP'') s then result ''Hit by Pitch'' [] [''B-1'']
      else if re_match (rx_hit (CHR ''S'')) s then result ''Hit - Single'' [] [''B-1'']
      else if re_match (rx_hit (CHR ''D'')) s then result ''Hit - Double'' [] [''B-2'']
      else if re_match (Str ''DGR'') s then result ''Hit - Ground Rule Double'' [] [''B-2'']
      else if re_match (rx_hit (CHR ''T'')) s then result ''Hit - Triple'' [] [''B-3'']
      else if re_match rx_CS s then
        (case cs_loop (re_findall rx_CS s) None [] of
           Inl e \<Rightarrow> Inl e
         | Inr (br, out) \<Rightarrow> result ''Runner Caught Stealing'' out [])
      else if re_match (Str ''WP'') s then result ''Wild Pitch'' [] []
      else if re_match (rx_alone (CHR ''W'')) s then result ''Walk'' [] [''B-1'']
      else if re_match (Str ''IW'') s then result ''Intentional Walk'' [] [''B-1'']
      else if re_match (Str ''PB'') s then result ''Passed Ball'' [] []
      else if re_match rx_SB s then result ''Stolen Base'' [] []
      else if re_match rx_E09 s then result ''Error'' [] []
      else if re_match (Str ''DI'') s then result ''Defensive Indifference'' [] []
      else if re_match rx_PO s then
        (case po_loop (re_findall_group rx_PO rx_error_group s) ''Picked Off Base'' [] of
           (p, out) \<Rightarrow> result p out [])
      else if re_match rx_POCS s then
        (case pocs_loop s (re_findall_group rx_POCS rx_error_group s)
                ''Picked Off Base Caught Stealing'' None [] of
           Inl e \<Rightarrow> Inl e
         | Inr (p, out) \<Rightarrow> result p out [])
      else if re_match (Str ''BK'') s then result ''Balk'' [] []
      else if re_match (Str ''OA'') s then result ''Other Baserunner Advance'' [] []
      else if re_match (Str ''FLE'') s then result ''Error on Foul Flyball'' [] []
      else result [] [] [])"

section \<open>Aggregating a play\<close>

text \<open>\<^verbatim>\<open>sep.join(xs)\<close>\<close>

fun join :: "string \<Rightarrow> string list \<Rightarrow> string" where
  "join sep [] = []"
| "join sep [x] = x"
| "join sep (x # y # ys) = x @ sep @ join sep (y # ys)"

text \<open>\<^verbatim>\<open>sum([int(i['basicPlay'] == 'Out') for i in subevents])\<close>\<close>

definition nOuts :: "subevent list \<Rightarrow> int" where
  "nOuts subevents = sum_list (map (\<lambda>i. if sub_basicPlay i = ''Out'' then 1 else 0) subevents)"

text \<open>
  In both description functions the name of the result is assigned under
  \<^verbatim>\<open>nOuts == 1\<close>, \<^verbatim>\<open>nOuts == 2\<close> and \<^verbatim>\<open>nOuts == 3\<close> only; with any other count the
  \<^verbatim>\<open>return\<close> reads an unassigned local.
\<close>

definition basicPlayDesc :: "subevent list \<Rightarrow> py_error + string" where
  "basicPlayDesc subevents =
     (if length subevents = 0 then Inl ValueError
      else if length subevents = 1 then Inr (sub_basicPlay (hd subevents))
      else if sub_basicPlay (hd subevents) = ''Out'' then
        (if nOuts subevents = 1 then Inr ''Out''
         else if nOuts subevents = 2 then Inr ''Double Play''
         else if nOuts subevents = 3 then Inr ''Triple Play''
         else Inl UnboundLocalError)
      else Inr (sub_basicPlay (hd subevents)))"

definition fullPlayDesc :: "subevent list \<Rightarrow> py_error + string" where
  "fullPlayDesc subevents =
     (if length subevents = 0 then Inl ValueError
      else if length subevents = 1 then Inr (sub_basicPlay (hd subevents))
      else if sub_basicPlay (hd subevents) = ''Out'' then
        (if nOuts subevents = 1 then Inr ''Out''
         else if nOuts subevents = 2 then Inr ''Double Play''
         else if nOuts subevents = 3 then Inr ''Triple Play''
         else Inl UnboundLocalError)
      else Inr (join '' - '' (map sub_basicPlay subevents)))"

text \<open>
  \<^verbatim>\<open>list(set(...))\<close>: Python leaves the order in which a set is listed open. The
  functions below take the listing as a parameter \<open>enum\<close>, from the elements put into the
  set to the list that comes out; \<open>set_listing\<close> says what every listing satisfies.
\<close>

definition set_listing :: "(string list \<Rightarrow> string list) \<Rightarrow> bool" where
  "set_listing enum = (\<forall>xs. distinct (enum xs) \<and> set (enum xs) = set xs)"

text \<open>\<^verbatim>\<open>[1-3B]X.*E\<close>, \<^verbatim>\<open>[1-3B]X\<close>, \<^verbatim>\<open>[1-3B]-\<close>\<close>

definition rx_adv_X_E :: rx where
  "rx_adv_X_E =
     Seq (Chr (OneOf ''123B''))
       (Seq (Chr (One (CHR ''X''))) (Seq (Star AnyChar) (Chr (One (CHR ''E'')))))"

definition rx_adv_X :: rx where
  "rx_adv_X = Seq (Chr (OneOf ''123B'')) (Chr (One (CHR ''X'')))"

definition rx_adv_dash :: rx where
  "rx_adv_dash = Seq (Chr (OneOf ''123B'')) (Chr (One (CHR ''-'')))"

text \<open>
  The loop of \<^verbatim>\<open>playersOut\<close> over \<^verbatim>\<open>advs\<close>, giving \<open>(advNotOut, advOuts)\<close>. \<^verbatim>\<open>i[0]\<close> is
  read after a match of at least two characters, so it is \<open>take 1 i\<close>.
\<close>

fun outs_loop :: "string list \<Rightarrow> string list \<Rightarrow> string list \<Rightarrow> string list \<times> string list" where
  "outs_loop [] advNotOut advOuts = (advNotOut, advOuts)"
| "outs_loop (i # rest) advNotOut advOuts =
     (if re_match rx_adv_X_E i then outs_loop rest (advNotOut @ [take 1 i]) advOuts
      else if re_match rx_adv_X i then outs_loop rest advNotOut (advOuts @ [take 1 i])
      else if re_match rx_adv_dash i then outs_loop rest (advNotOut @ [take 1 i]) advOuts
      else outs_loop rest advNotOut advOuts)"

definition playersOut :: "(string list \<Rightarrow> string list) \<Rightarrow> playSplit \<Rightarrow> subevent list \<Rightarrow> string list" where
  "playersOut enum playSplit subeventsParsed =
     (let subeventsOuts = concat (map sub_playersOut subeventsParsed) in
      case outs_loop (advs playSplit) [] [] of
        (advNotOut, advOuts) \<Rightarrow>
          enum (filter (\<lambda>x. x \<notin> set advNotOut) (advOuts @ subeventsOuts)))"

text \<open>\<^verbatim>\<open>[1-3B]X[1-3H].*E\<close>, \<^verbatim>\<open>[1-3B]-[1-3H]\<close>\<close>

definition rx_advance_X_E :: rx where
  "rx_advance_X_E =
     Seq (Chr (OneOf ''123B''))
       (Seq (Chr (One (CHR ''X'')))
         (Seq (Chr (OneOf ''123H'')) (Seq (Star AnyChar) (Chr (One (CHR ''E''))))))"

definition rx_advance_dash :: rx where
  "rx_advance_dash =
     Seq (Chr (OneOf ''123B'')) (Seq (Chr (One (CHR ''-''))) (Chr (OneOf ''123H'')))"

text \<open>The loop of \<^verbatim>\<open>playerAdvances\<close> over \<^verbatim>\<open>advs\<close>, giving \<open>advsNotOut\<close>.\<close>

fun advances_loop :: "string list \<Rightarrow> string list \<Rightarrow> string list" where
  "advances_loop [] advsNotOut = advsNotOut"
| "advances_loop (i # rest) advsNotOut =
     (if re_match rx_advance_X_E i then advances_loop rest (advsNotOut @ [take 3 i])
      else if re_match rx_advance_dash i then advances_loop rest (advsNotOut @ [take 3 i])
      else advances_loop rest advsNotOut)"

text \<open>
  \<^verbatim>\<open>[i for i in implicitAdvances for j in advs if i[0] == j[0]]\<close>: \<^verbatim>\<open>i[0]\<close> and
  \<^verbatim>\<open>j[0]\<close> raise on an empty string.
\<close>

fun ria_inner :: "string \<Rightarrow> string list \<Rightarrow> py_error + string list" where
  "ria_inner i [] = Inr []"
| "ria_inner i (j # js) =
     (case i of
        [] \<Rightarrow> Inl IndexError
      | a # _ \<Rightarrow>
          (case j of
             [] \<Rightarrow> Inl IndexError
           | b # _ \<Rightarrow>
               (case ria_inner i js of
                  Inl e \<Rightarrow> Inl e
                | Inr r \<Rightarrow> Inr (if a = b then i # r else r))))"

text \<open>\<^verbatim>\<open>{i[0]:i[2] for i in finalAdvs}\<close>: a later entry replaces the value of an equal key.\<close>

fun dict_loop :: "string list \<Rightarrow> (string \<times> string) list \<Rightarrow> py_error + (string \<times> string) list" where
  "dict_loop [] d = Inr d"
| "dict_loop (i # rest) d =
     (if length i < 3 then Inl IndexError
      else dict_loop rest (AList.update [i ! 0] [i ! 2] d))"

definition playerAdvances :: "(string list \<Rightarrow> string list) \<Rightarrow> playSplit \<Rightarrow> subevent list
    \<Rightarrow> py_error + (string \<times> string) list" where
  "playerAdvances enum playSplit subeventsParsed =
     (let implicitAdvances = concat (map sub_implicitAdvances subeventsParsed);
          advsNotOut = advances_loop (advs playSplit) []
      in case map_err (\<lambda>i. ria_inner i (advs playSplit)) implicitAdvances of
           Inl e \<Rightarrow> Inl e
         | Inr rs \<Rightarrow>
             (let ria = enum (concat rs);
                  finalAdvs = enum (filter (\<lambda>x. x \<notin> set ria) (advsNotOut @ implicitAdvances))
              in dict_loop finalAdvs []))"

definition runsScored :: "(string \<times> string) list \<Rightarrow> int" where
  "runsScored d = sum_list (map (\<lambda>i. if i = ''H'' then 1 else 0) (map snd d))"

text \<open>
  One row of the table \<^verbatim>\<open>enhancePlays\<close> builds: the columns it assigns, in order, each
  from the play of the row. An exception in any column aborts the call.
\<close>

record play_row =
  col_playSplit :: playSplit
  col_subevents :: "string list"
  col_subeventParsed :: "subevent list"
  col_basicPlayDesc :: string
  col_fullPlayDesc :: string
  col_playersOut :: "string list"
  col_outsOnPlay :: nat
  col_playerAdvances :: "(string \<times> string) list"
  col_runsScored :: int

definition enhancePlays :: "(string list \<Rightarrow> string list) \<Rightarrow> string \<Rightarrow> py_error + play_row" where
  "enhancePlays enum play =
     (case playSplitter play of Inl e \<Rightarrow> Inl e | Inr ps \<Rightarrow>
     (case subevent_splitter (event ps) of Inl e \<Rightarrow> Inl e | Inr ses \<Rightarrow>
     (case map_err subeventParser ses of Inl e \<Rightarrow> Inl e | Inr parsed \<Rightarrow>
     (case basicPlayDesc parsed of Inl e \<Rightarrow> Inl e | Inr bd \<Rightarrow>
     (case fullPlayDesc parsed of Inl e \<Rightarrow> Inl e | Inr fd \<Rightarrow>
     (case playerAdvances enum ps parsed of Inl e \<Rightarrow> Inl e | Inr pa \<Rightarrow>
        Inr \<lparr>col_playSplit = ps, col_subevents = ses, col_subeventParsed = parsed,
             col_basicPlayDesc = bd, col_fullPlayDesc = fd,
             col_playersOut = playersOut enum ps parsed,
             col_outsOnPlay = length (playersOut enum ps parsed),
             col_playerAdvances = pa, col_runsScored = runsScored pa\<rparr>))))))"

section \<open>Notions the properties are stated with\<close>

text \<open>
  The value of the counter \<open>nb_brackets\<close> of the two scanning loops after the characters
  of \<open>s\<close>, started at 0: one up for \<^verbatim>\<open>(\<close>, one down for \<^verbatim>\<open>)\<close>.
\<close>

definition nb_brackets_after :: "string \<Rightarrow> int" where
  "nb_brackets_after s =
     sum_list (map (\<lambda>c. if c = CHR ''('' then 1 else if c = CHR '')'' then - 1 else 0) s)"

text \<open>
  The brackets of \<open>s\<close> are unbalanced: the counter is negative after some prefix of \<open>s\<close>,
  or it is not 0 after all of \<open>s\<close>.
\<close>

definition unbalanced :: "string \<Rightarrow> bool" where
  "unbalanced s =
     ((\<exists>k \<le> length s. nb_brackets_after (take k s) < 0) \<or> nb_brackets_after s \<noteq> 0)"

text \<open>
  The segments of \<open>s\<close> between its start, the positions of \<open>s\<close> where \<open>at\<close> holds, and
  its end.
\<close>

definition cut_slices :: "(string \<Rightarrow> nat \<Rightarrow> bool) \<Rightarrow> string \<Rightarrow> string list" where
  "cut_slices at s = slices s (0 # filter (at s) [0 ..< length s] @ [length s])"

text \<open>Position \<open>j\<close> of \<open>s\<close> holds a \<^verbatim>\<open>+\<close> outside all brackets.\<close>

definition plus_at :: "string \<Rightarrow> nat \<Rightarrow> bool" where
  "plus_at s j = (s ! j = CHR ''+'' \<and> nb_brackets_after (take j s) = 0)"

text \<open>
  Position \<open>j\<close> of \<open>s\<close> comes right after a closing bracket, no bracket is open there, and
  the character at \<open>j\<close> is not an opening bracket.
\<close>

definition breaks_at :: "string \<Rightarrow> nat \<Rightarrow> bool" where
  "breaks_at s j =
     (0 < j \<and> s ! (j - 1) = CHR '')'' \<and> nb_brackets_after (take j s) = 0 \<and> s ! j \<noteq> CHR ''('')"

text \<open>
  \<open>s\<close> without the \<^verbatim>\<open>+\<close> at its end, where the end is the end of \<open>s\<close> or the newline
  that ends \<open>s\<close>; and \<open>s\<close> without a \<^verbatim>\<open>+\<close> at its start and without one at its end.
\<close>

fun drop_end_plus :: "string \<Rightarrow> string" where
  "drop_end_plus [] = []"
| "drop_end_plus (c # r) =
     (if c = CHR ''+'' \<and> (r = [] \<or> r = [newline]) then r else c # drop_end_plus r)"

definition drop_edge_plus :: "string \<Rightarrow> string" where
  "drop_edge_plus s =
     (case s of
        [] \<Rightarrow> []
      | c # r \<Rightarrow> if c = CHR ''+'' then drop_end_plus r else c # drop_end_plus r)"

text \<open>The patterns of the rules of \<^verbatim>\<open>_subeventParser\<close>, in the order of its \<^verbatim>\<open>elif\<close> chain.\<close>

definition rule_patterns :: "rx list" where
  "rule_patterns =
     [rx_out, rx_fielding_error, Str ''FC'', rx_alone (CHR ''C''), Str ''NP'', Str ''K'',
      rx_home_run, Str ''HP'', rx_hit (CHR ''S''), rx_hit (CHR ''D''), Str ''DGR'',
      rx_hit (CHR ''T''), rx_CS, Str ''WP'', rx_alone (CHR ''W''), Str ''IW'', Str ''PB'',
      rx_SB, rx_E09, Str ''DI'', rx_PO, rx_POCS, Str ''BK'', Str ''OA'', Str ''FLE'']"

section \<open>What a pattern matches\<close>

lemma in_star_rests:
  "r \<in> set (star_rests cs s) \<longleftrightarrow> (\<exists>u. s = u @ r \<and> (\<forall>c \<in> set u. cmem cs c))"
proof (induction s)
  case Nil
  then show ?case by auto
next
  case (Cons c s)
  show ?case
  proof
    assume "r \<in> set (star_rests cs (c # s))"
    then consider "cmem cs c" "r \<in> set (star_rests cs s)" | "r = c # s"
      by (auto split: if_splits)
    then show "\<exists>u. c # s = u @ r \<and> (\<forall>c \<in> set u. cmem cs c)"
    proof cases
      case 1
      with Cons obtain u where "s = u @ r" "\<forall>c \<in> set u. cmem cs c" by auto
      with 1 have "c # s = (c # u) @ r \<and> (\<forall>c \<in> set (c # u). cmem cs c)" by simp
      then show ?thesis by blast
    next
      case 2
      then have "c # s = [] @ r \<and> (\<forall>c \<in> set []. cmem cs c)" by simp
      then show ?thesis by blast
    qed
  next
    assume "\<exists>u. c # s = u @ r \<and> (\<forall>c \<in> set u. cmem cs c)"
    then obtain u where u: "c # s = u @ r" "\<forall>c \<in> set u. cmem cs c" by blast
    show "r \<in> set (star_rests cs (c # s))"
    proof (cases u)
      case Nil
      with u have "r = c # s" by simp
      then show ?thesis by simp
    next
      case (Cons a u')
      with u have "a = c" "s = u' @ r" "cmem cs c" "\<forall>c \<in> set u'. cmem cs c" by auto
      with Cons.IH show ?thesis by auto
    qed
  qed
qed

lemma in_rests_Chr: "r \<in> set (rests n (Chr cs) s) \<longleftrightarrow> (\<exists>c. s = c # r \<and> cmem cs c)"
  by (cases s) auto

lemma in_rests_Str: "r \<in> set (rests n (Str w) s) \<longleftrightarrow> s = w @ r"
proof -
  have "take (length w) s = w \<Longrightarrow> s = w @ drop (length w) s"
    by (metis append_take_drop_id)
  then show ?thesis by auto
qed

lemma in_rests_Star: "r \<in> set (rests n (Star cs) s) \<longleftrightarrow> (\<exists>u. s = u @ r \<and> (\<forall>c \<in> set u. cmem cs c))"
  by (simp add: in_star_rests)

lemma in_rests_Plus:
  "r \<in> set (rests n (Plus cs) s) \<longleftrightarrow> (\<exists>c u. s = c # u @ r \<and> cmem cs c \<and> (\<forall>c \<in> set u. cmem cs c))"
  by (cases s) (auto simp: in_star_rests)

lemma in_rests_Bos: "r \<in> set (rests n Bos s) \<longleftrightarrow> r = s \<and> length s = n"
  by auto

lemma in_rests_Eos: "r \<in> set (rests n Eos s) \<longleftrightarrow> r = s \<and> (s = [] \<or> s = [newline])"
  by auto

lemma in_rests_Seq:
  "r \<in> set (rests n (Seq p q) s) \<longleftrightarrow> (\<exists>m. m \<in> set (rests n p s) \<and> r \<in> set (rests n q m))"
  by auto

lemma in_rests_Alt:
  "r \<in> set (rests n (Alt p q) s) \<longleftrightarrow> r \<in> set (rests n p s) \<or> r \<in> set (rests n q s)"
  by auto

lemma in_rests_Opt: "r \<in> set (rests n (Opt p) s) \<longleftrightarrow> r \<in> set (rests n p s) \<or> r = s"
  by auto

lemmas in_rests = in_rests_Chr in_rests_Str in_rests_Star in_rests_Plus in_rests_Bos
  in_rests_Eos in_rests_Seq in_rests_Alt in_rests_Opt

lemma re_match_iff: "re_match p s \<longleftrightarrow> (\<exists>r. r \<in> set (rests (length s) p s))"
  by (cases "rests (length s) p s") (auto simp: re_match_def)

lemma rests_suffix: "r \<in> set (rests n p s) \<Longrightarrow> \<exists>u. s = u @ r"
proof (induction p arbitrary: s r)
  case (Seq p q)
  then show ?case by (auto simp only: in_rests) (metis append.assoc)
qed (auto simp only: in_rests, auto)

lemma match_adv_X: "re_match rx_adv_X i \<longleftrightarrow> (\<exists>b rest. i = b # CHR ''X'' # rest \<and> b \<in> set ''123B'')"
  unfolding re_match_iff rx_adv_X_def by (simp only: in_rests) auto

lemma match_adv_dash: "re_match rx_adv_dash i \<longleftrightarrow> (\<exists>b rest. i = b # CHR ''-'' # rest \<and> b \<in> set ''123B'')"
  unfolding re_match_iff rx_adv_dash_def by (simp only: in_rests) auto

lemma match_adv_X_E: "re_match rx_adv_X_E i \<longleftrightarrow>
   (\<exists>b u v. i = b # CHR ''X'' # u @ CHR ''E'' # v \<and> b \<in> set ''123B'' \<and> newline \<notin> set u)"
  unfolding re_match_iff rx_adv_X_E_def by (simp only: in_rests) auto

section \<open>The aggregated play\<close>

lemma set_listing_remdups: "set_listing remdups"
  by (simp add: set_listing_def)

lemma set_listingD: "set_listing enum \<Longrightarrow> distinct (enum xs) \<and> set (enum xs) = set xs"
  by (simp add: set_listing_def)

lemma playersOut_distinct: "set_listing enum \<Longrightarrow> distinct (playersOut enum ps subs)"
  by (simp add: playersOut_def Let_def set_listingD split: prod.splits)

lemma dict_loop_keys:
  "dict_loop xs d = Inr d' \<Longrightarrow> distinct (map fst d) \<Longrightarrow> distinct (map fst d')"
  by (induction xs d rule: dict_loop.induct) (auto split: if_splits simp: distinct_update)

lemma playerAdvances_keys:
  "playerAdvances enum ps subs = Inr d \<Longrightarrow> distinct (map fst d)"
  by (auto simp: playerAdvances_def Let_def split: sum.splits dest: dict_loop_keys)

lemma runsScored_count: "runsScored d = int (length (filter (\<lambda>kv. snd kv = ''H'') d))"
  unfolding runsScored_def by (induction d) auto

lemma enhancePlays_cols:
  assumes "enhancePlays enum play = Inr r"
  shows "col_playersOut r = playersOut enum (col_playSplit r) (col_subeventParsed r)"
    and "col_outsOnPlay r = length (col_playersOut r)"
    and "playerAdvances enum (col_playSplit r) (col_subeventParsed r) = Inr (col_playerAdvances r)"
    and "col_runsScored r = runsScored (col_playerAdvances r)"
    and "playSplitter play = Inr (col_playSplit r)"
    and "subevent_splitter (event (col_playSplit r)) = Inr (col_subevents r)"
    and "map_err subeventParser (col_subevents r) = Inr (col_subeventParsed r)"
    and "basicPlayDesc (col_subeventParsed r) = Inr (col_basicPlayDesc r)"
    and "fullPlayDesc (col_subeventParsed r) = Inr (col_fullPlayDesc r)"
  using assms by (auto simp: enhancePlays_def split: sum.splits)

text \<open>
  C8. For every play that \<^verbatim>\<open>enhancePlays\<close> derives without an error, whatever the order in
  which Python lists its sets: \<open>outsOnPlay\<close> is the number of elements of \<open>playersOut\<close>,
  which has no duplicates; the keys of the advance map are distinct; and \<open>runsScored\<close> is
  the number of entries of the advance map whose value is \<^verbatim>\<open>H\<close>.
\<close>

theorem derived_play_invariants:
  assumes "set_listing enum" and "enhancePlays enum play = Inr r"
  shows "col_outsOnPlay r = card (set (col_playersOut r))
       \<and> distinct (col_playersOut r)
       \<and> distinct (map fst (col_playerAdvances r))
       \<and> col_runsScored r = int (length (filter (\<lambda>kv. snd kv = ''H'') (col_playerAdvances r)))"
proof -
  note c = enhancePlays_cols [OF assms(2)]
  have d: "distinct (col_playersOut r)"
    using assms(1) by (simp add: c(1) playersOut_distinct)
  then have "col_outsOnPlay r = card (set (col_playersOut r))"
    by (simp add: c(2) distinct_card)
  moreover have "distinct (map fst (col_playerAdvances r))"
    using c(3) by (rule playerAdvances_keys)
  moreover have "col_runsScored r = int (length (filter (\<lambda>kv. snd kv = ''H'') (col_playerAdvances r)))"
    by (simp add: c(4) runsScored_count)
  ultimately show ?thesis using d by simp
qed




lemma implicit_of_subeventParser:
  "subeventParser s = Inr sb \<Longrightarrow> set (sub_implicitAdvances sb) \<subseteq> {''B-1'', ''B-2'', ''B-3'', ''B-H''}"
  unfolding subeventParser_def result_def Let_def
  by (auto split: if_splits sum.splits prod.splits)

lemma map_err_Inr: "map_err f xs = Inr ys \<Longrightarrow> list_all2 (\<lambda>x y. f x = Inr y) xs ys"
  by (induction xs arbitrary: ys) (auto split: sum.splits)

lemma match_advance_X_E:
  "re_match rx_advance_X_E i \<Longrightarrow>
     \<exists>b d rest. i = b # CHR ''X'' # d # rest \<and> b \<in> set ''123B'' \<and> d \<in> set ''123H''"
  unfolding re_match_iff rx_advance_X_E_def by (simp only: in_rests) auto

lemma match_advance_dash:
  "re_match rx_advance_dash i \<longleftrightarrow>
     (\<exists>b d rest. i = b # CHR ''-'' # d # rest \<and> b \<in> set ''123B'' \<and> d \<in> set ''123H'')"
  unfolding re_match_iff rx_advance_dash_def by (simp only: in_rests) auto

lemma set_advances_loop:
  "set (advances_loop xs acc) =
     set acc \<union> {take 3 i | i. i \<in> set xs \<and> (re_match rx_advance_X_E i \<or> re_match rx_advance_dash i)}"
  by (induction xs acc rule: advances_loop.induct) auto

lemma set_update_subset: "set (AList.update k v d) \<subseteq> insert (k, v) (set d)"
  by (induction d) auto

lemma dict_loop_entries:
  assumes "dict_loop xs d = Inr d'" and "(k, v) \<in> set d'"
  shows "(k, v) \<in> set d \<or> (\<exists>i \<in> set xs. 3 \<le> length i \<and> k = [i ! 0] \<and> v = [i ! 2])"
  using assms
proof (induction xs d rule: dict_loop.induct)
  case (1 d)
  then show ?case by simp
next
  case (2 i rest d)
  then have len: "3 \<le> length i" and run: "dict_loop rest (AList.update [i ! 0] [i ! 2] d) = Inr d'"
    by (auto split: if_splits)
  from 2 len run have "(k, v) \<in> set (AList.update [i ! 0] [i ! 2] d)
      \<or> (\<exists>i \<in> set rest. 3 \<le> length i \<and> k = [i ! 0] \<and> v = [i ! 2])"
    by auto
  with len set_update_subset [of "[i ! 0]" "[i ! 2]" d] show ?case by auto
qed

text \<open>
  C10. Whatever the advance tokens of the play are, and for sub-events that the classifier
  returned: every key of the advance map is one of \<^verbatim>\<open>B\<close>, \<^verbatim>\<open>1\<close>, \<^verbatim>\<open>2\<close>, \<^verbatim>\<open>3\<close> and
  every value is one of \<^verbatim>\<open>1\<close>, \<^verbatim>\<open>2\<close>, \<^verbatim>\<open>3\<close>, \<^verbatim>\<open>H\<close>.
\<close>

theorem advance_map_base_codes:
  assumes enum: "set_listing enum"
    and parsed: "map_err subeventParser ss = Inr parsed"
    and run: "playerAdvances enum ps parsed = Inr d"
    and kv: "(k, v) \<in> set d"
  shows "k \<in> {''B'', ''1'', ''2'', ''3''} \<and> v \<in> {''1'', ''2'', ''3'', ''H''}"
proof -
  let ?imp = "concat (map sub_implicitAdvances parsed)"
  let ?exp = "advances_loop (advs ps) []"
  have imp: "set ?imp \<subseteq> {''B-1'', ''B-2'', ''B-3'', ''B-H''}"
  proof
    fix x assume "x \<in> set ?imp"
    then obtain sb where sb: "sb \<in> set parsed" "x \<in> set (sub_implicitAdvances sb)" by auto
    from map_err_Inr [OF parsed] sb(1) obtain s where "subeventParser s = Inr sb"
      by (auto simp: list_all2_conv_all_nth in_set_conv_nth)
    from implicit_of_subeventParser [OF this] sb(2)
    show "x \<in> {''B-1'', ''B-2'', ''B-3'', ''B-H''}" by blast
  qed
  from run obtain rs where
    loop: "dict_loop (enum (filter (\<lambda>x. x \<notin> set (enum (concat rs))) (?exp @ ?imp))) [] = Inr d"
    by (auto simp: playerAdvances_def Let_def split: sum.splits)
  define fin where "fin = enum (filter (\<lambda>x. x \<notin> set (enum (concat rs))) (?exp @ ?imp))"
  have fin: "dict_loop fin [] = Inr d" "set fin \<subseteq> set ?exp \<union> set ?imp"
    using loop by (auto simp: fin_def set_listingD [OF enum])
  from dict_loop_entries [OF fin(1) kv] obtain i where
    i: "i \<in> set fin" "k = [i ! 0]" "v = [i ! 2]" by auto
  from i(1) fin(2) consider "i \<in> set ?imp" | "i \<in> set ?exp" by blast
  then show ?thesis
  proof cases
    case 1
    with imp have "i \<in> {''B-1'', ''B-2'', ''B-3'', ''B-H''}" by blast
    with i show ?thesis by auto
  next
    case 2
    then obtain t where t: "i = take 3 t" "re_match rx_advance_X_E t \<or> re_match rx_advance_dash t"
      by (auto simp: set_advances_loop)
    then obtain b x dd rest where "t = b # x # dd # rest" "b \<in> set ''123B''" "dd \<in> set ''123H''"
      using match_advance_X_E [of t] match_advance_dash [of t] by blast
    with t(1) i show ?thesis by auto
  qed
qed




lemma match_adv_X_E_X: "re_match rx_adv_X_E i \<Longrightarrow> re_match rx_adv_X i"
  by (auto simp: match_adv_X_E match_adv_X)

lemma match_adv_dash_not_X: "re_match rx_adv_dash i \<Longrightarrow> \<not> re_match rx_adv_X i"
  by (auto simp: match_adv_dash match_adv_X)

lemma outs_loop_fst:
  "set (fst (outs_loop xs advNotOut advOuts)) =
     set advNotOut \<union> {take 1 i | i. i \<in> set xs \<and> (re_match rx_adv_X_E i \<or> re_match rx_adv_dash i)}"
proof (induction xs advNotOut advOuts rule: outs_loop.induct)
  case (1 advNotOut advOuts)
  then show ?case by simp
next
  case (2 i rest advNotOut advOuts)
  then show ?case
    by (cases "re_match rx_adv_X_E i"; cases "re_match rx_adv_X i"; cases "re_match rx_adv_dash i")
       (auto dest: match_adv_X_E_X match_adv_dash_not_X)
qed

lemma outs_loop_snd:
  "set (snd (outs_loop xs advNotOut advOuts)) =
     set advOuts \<union> {take 1 i | i. i \<in> set xs \<and> re_match rx_adv_X i \<and> \<not> re_match rx_adv_X_E i}"
proof (induction xs advNotOut advOuts rule: outs_loop.induct)
  case (1 advNotOut advOuts)
  then show ?case by simp
next
  case (2 i rest advNotOut advOuts)
  then show ?case
    by (cases "re_match rx_adv_X_E i"; cases "re_match rx_adv_X i"; cases "re_match rx_adv_dash i")
       (auto dest: match_adv_X_E_X match_adv_dash_not_X)
qed

lemma set_playersOut:
  assumes "set_listing enum"
  shows "set (playersOut enum ps subs) =
    ({take 1 i | i. i \<in> set (advs ps) \<and> re_match rx_adv_X i \<and> \<not> re_match rx_adv_X_E i}
       \<union> (\<Union>sb \<in> set subs. set (sub_playersOut sb)))
    - {take 1 i | i. i \<in> set (advs ps) \<and> (re_match rx_adv_X_E i \<or> re_match rx_adv_dash i)}"
proof -
  obtain n out where l: "outs_loop (advs ps) [] [] = (n, out)" by (cases "outs_loop (advs ps) [] []")
  have "set n = {take 1 i | i. i \<in> set (advs ps) \<and> (re_match rx_adv_X_E i \<or> re_match rx_adv_dash i)}"
    and "set out = {take 1 i | i. i \<in> set (advs ps) \<and> re_match rx_adv_X i \<and> \<not> re_match rx_adv_X_E i}"
    using outs_loop_fst [of "advs ps" "[]" "[]"] outs_loop_snd [of "advs ps" "[]" "[]"]
    by (simp_all add: l)
  moreover have "set (playersOut enum ps subs) =
      (set out \<union> (\<Union>sb \<in> set subs. set (sub_playersOut sb))) - set n"
    by (auto simp: playersOut_def l set_listingD [OF assms])
  ultimately show ?thesis by simp
qed

text \<open>
  C4. For an advance token \<open>tok\<close> of the play, with \<open>take 1 tok\<close> its base: if \<open>tok\<close> is
  an out attempt with an error after the \<^verbatim>\<open>X\<close> (\<^verbatim>\<open>[1-3B]X.*E\<close>), its base is not in
  \<open>playersOut\<close>, whatever the sub-events say; if it is an out attempt with no error
  (\<^verbatim>\<open>[1-3B]X\<close> and not \<^verbatim>\<open>[1-3B]X.*E\<close>) and no token of the same base is an out attempt
  with an error or a successful advance, its base is in \<open>playersOut\<close>; if it is a
  successful advance (\<^verbatim>\<open>[1-3B]-\<close>), its base is not in \<open>playersOut\<close>.
\<close>

theorem players_out_and_explicit_advances:
  assumes "set_listing enum" and "tok \<in> set (advs ps)"
  shows "(re_match rx_adv_X_E tok \<longrightarrow> take 1 tok \<notin> set (playersOut enum ps subs))
       \<and> (re_match rx_adv_X tok \<and> \<not> re_match rx_adv_X_E tok
            \<and> (\<forall>t \<in> set (advs ps). take 1 t = take 1 tok \<longrightarrow>
                  \<not> re_match rx_adv_X_E t \<and> \<not> re_match rx_adv_dash t)
          \<longrightarrow> take 1 tok \<in> set (playersOut enum ps subs))
       \<and> (re_match rx_adv_dash tok \<longrightarrow> take 1 tok \<notin> set (playersOut enum ps subs))"
proof -
  let ?not = "{take 1 i | i. i \<in> set (advs ps) \<and> (re_match rx_adv_X_E i \<or> re_match rx_adv_dash i)}"
  let ?out = "{take 1 i | i. i \<in> set (advs ps) \<and> re_match rx_adv_X i \<and> \<not> re_match rx_adv_X_E i}"
  have eq: "set (playersOut enum ps subs) =
      (?out \<union> (\<Union>sb \<in> set subs. set (sub_playersOut sb))) - ?not"
    by (rule set_playersOut [OF assms(1)])
  have a: "re_match rx_adv_X_E tok \<or> re_match rx_adv_dash tok \<Longrightarrow> take 1 tok \<in> ?not"
    using assms(2) by blast
  have b: "re_match rx_adv_X tok \<Longrightarrow> \<not> re_match rx_adv_X_E tok \<Longrightarrow> take 1 tok \<in> ?out"
    using assms(2) by blast
  have c: "\<forall>t \<in> set (advs ps). take 1 t = take 1 tok \<longrightarrow>
                  \<not> re_match rx_adv_X_E t \<and> \<not> re_match rx_adv_dash t \<Longrightarrow> take 1 tok \<notin> ?not"
    by (simp del: One_nat_def)
  show ?thesis unfolding eq using a b c by blast
qed




lemma set_listing_Nil: "set_listing enum \<Longrightarrow> enum [] = []"
  using set_listingD [of enum "[]"] by simp

lemma single_B1_split:
  "playSplitter ''S9.B-1'' = Inr \<lparr>event = ''S9'', mods = [], advs = [''B-1'']\<rparr>"
  by code_simp

lemma single_B1_subevents: "subevent_splitter ''S9'' = Inr [''S9'']"
  by code_simp

lemma single_B1_parsed:
  "map_err subeventParser [''S9''] =
     Inr [\<lparr>sub_basicPlay = ''Hit - Single'', sub_playersOut = [], sub_implicitAdvances = [''B-1'']\<rparr>]"
  by code_simp

lemma single_B1_ria: "map_err (\<lambda>i. ria_inner i [''B-1'']) [''B-1''] = Inr [[''B-1'']]"
  by code_simp

lemma single_B1_loop: "advances_loop [''B-1''] [] = [''B-1'']"
  by code_simp

text \<open>
  C1. The play \<^verbatim>\<open>S9.B-1\<close> has the explicit successful advance \<^verbatim>\<open>B-1\<close>, and its
  sub-event \<^verbatim>\<open>S9\<close> implies the same advance. The advance map of the play is empty: the
  explicit advance is removed together with the implicit one.
\<close>

theorem explicit_advance_dropped:
  assumes "set_listing enum"
  shows "playSplitter ''S9.B-1'' = Inr \<lparr>event = ''S9'', mods = [], advs = [''B-1'']\<rparr>
    \<and> map_err subeventParser [''S9''] =
         Inr [\<lparr>sub_basicPlay = ''Hit - Single'', sub_playersOut = [], sub_implicitAdvances = [''B-1'']\<rparr>]
    \<and> playerAdvances enum \<lparr>event = ''S9'', mods = [], advs = [''B-1'']\<rparr>
         [\<lparr>sub_basicPlay = ''Hit - Single'', sub_playersOut = [], sub_implicitAdvances = [''B-1'']\<rparr>]
       = Inr []"
proof -
  have "set (enum [''B-1'']) = {''B-1''}"
    using set_listingD [OF assms, of "[''B-1'']"] by simp
  then have "playerAdvances enum \<lparr>event = ''S9'', mods = [], advs = [''B-1'']\<rparr>
         [\<lparr>sub_basicPlay = ''Hit - Single'', sub_playersOut = [], sub_implicitAdvances = [''B-1'']\<rparr>]
       = Inr []"
    by (simp add: playerAdvances_def single_B1_ria single_B1_loop set_listing_Nil [OF assms])
  with single_B1_split single_B1_parsed show ?thesis by (intro conjI)
qed


lemma row_64_1_3_3H:
  "enhancePlays remdups ''64(1)3.3-H'' =
     Inr \<lparr>col_playSplit = \<lparr>event = ''64(1)3'', mods = [], advs = [''3-H'']\<rparr>,
          col_subevents = [''64(1)'', ''3''],
          col_subeventParsed =
            [\<lparr>sub_basicPlay = ''Out'', sub_playersOut = [''1''], sub_implicitAdvances = []\<rparr>,
             \<lparr>sub_basicPlay = ''Out'', sub_playersOut = [''B''], sub_implicitAdvances = []\<rparr>],
          col_basicPlayDesc = ''Double Play'', col_fullPlayDesc = ''Double Play'',
          col_playersOut = [''1'', ''B''], col_outsOnPlay = 2,
          col_playerAdvances = [(''3'', ''H'')], col_runsScored = 1\<rparr>"
  by code_simp

text \<open>The invariants of C8 on the play \<^verbatim>\<open>64(1)3.3-H\<close>.\<close>

theorem derived_play_invariants_witness:
  "set_listing remdups
   \<and> (\<exists>r. enhancePlays remdups ''64(1)3.3-H'' = Inr r
        \<and> col_playersOut r = [''1'', ''B''] \<and> col_playerAdvances r = [(''3'', ''H'')]
        \<and> col_outsOnPlay r = card (set (col_playersOut r))
        \<and> distinct (col_playersOut r)
        \<and> distinct (map fst (col_playerAdvances r))
        \<and> col_runsScored r = int (length (filter (\<lambda>kv. snd kv = ''H'') (col_playerAdvances r))))"
  using derived_play_invariants [OF set_listing_remdups row_64_1_3_3H] set_listing_remdups
    row_64_1_3_3H
  by simp

text \<open>The same with the listing \<open>remdups\<close>.\<close>

theorem explicit_advance_dropped_witness:
  "set_listing remdups
   \<and> playerAdvances remdups \<lparr>event = ''S9'', mods = [], advs = [''B-1'']\<rparr>
         [\<lparr>sub_basicPlay = ''Hit - Single'', sub_playersOut = [], sub_implicitAdvances = [''B-1'']\<rparr>]
       = Inr []"
  using explicit_advance_dropped [OF set_listing_remdups] set_listing_remdups by simp

text \<open>
  C2. The sub-event \<^verbatim>\<open>PO1(23)\<close> is a pick-off at first base with no error code. The
  classifier returns Picked Off Base, and as \<open>playersOut\<close> the list holding the empty
  string, not the base \<^verbatim>\<open>1\<close>: the loop reads the text of the pattern's group, which is
  empty when there is no error code, where it expects the text of the match.
\<close>

theorem picked_off_base_lost:
  "subeventParser ''PO1(23)'' =
     Inr \<lparr>sub_basicPlay = ''Picked Off Base'', sub_playersOut = [''''], sub_implicitAdvances = []\<rparr>"
  by code_simp

text \<open>
  C3. The sub-event \<^verbatim>\<open>H\<close> starts with \<^verbatim>\<open>H\<close> and no \<^verbatim>\<open>P\<close> follows it. The classifier
  returns the empty category with no players out and no implicit advance: \<^verbatim>\<open>H[^P]\<close> asks
  for a character after the \<^verbatim>\<open>H\<close>.
\<close>

theorem bare_H_unclassified:
  "subeventParser ''H'' =
     Inr \<lparr>sub_basicPlay = '''', sub_playersOut = [], sub_implicitAdvances = []\<rparr>"
  by code_simp

lemma pickoff_with_error:
  "subeventParser ''PO1(E3)'' =
     Inr \<lparr>sub_basicPlay = ''Picked Off Base - Error'', sub_playersOut = [], sub_implicitAdvances = []\<rparr>"
  by code_simp

lemma match_home_run: "re_match rx_home_run s \<longleftrightarrow> (\<exists>c rest. s = CHR ''H'' # c # rest \<and> c \<noteq> CHR ''P'')"
  unfolding re_match_iff rx_home_run_def by (simp only: in_rests) auto

lemma advance_witness_parsed:
  "map_err subeventParser [''S9''] =
     Inr [\<lparr>sub_basicPlay = ''Hit - Single'', sub_playersOut = [], sub_implicitAdvances = [''B-1'']\<rparr>]"
  by code_simp

lemma advance_witness_map:
  "playerAdvances remdups \<lparr>event = ''S9'', mods = [], advs = [''2-H'', ''1X3(E5)'', ''junk'']\<rparr>
     [\<lparr>sub_basicPlay = ''Hit - Single'', sub_playersOut = [], sub_implicitAdvances = [''B-1'']\<rparr>]
   = Inr [(''2'', ''H''), (''1'', ''3''), (''B'', ''1'')]"
  by code_simp

text \<open>The base codes of C10 on a play with a token that is no advance.\<close>

theorem advance_map_base_codes_witness:
  "set_listing remdups
   \<and> map_err subeventParser [''S9''] =
       Inr [\<lparr>sub_basicPlay = ''Hit - Single'', sub_playersOut = [], sub_implicitAdvances = [''B-1'']\<rparr>]
   \<and> playerAdvances remdups \<lparr>event = ''S9'', mods = [], advs = [''2-H'', ''1X3(E5)'', ''junk'']\<rparr>
       [\<lparr>sub_basicPlay = ''Hit - Single'', sub_playersOut = [], sub_implicitAdvances = [''B-1'']\<rparr>]
     = Inr [(''2'', ''H''), (''1'', ''3''), (''B'', ''1'')]
   \<and> (''1'', ''3'') \<in> set [(''2'', ''H''), (''1'', ''3''), (''B'', ''1'')]
   \<and> ''1'' \<in> {''B'', ''1'', ''2'', ''3''} \<and> ''3'' \<in> {''1'', ''2'', ''3'', ''H''}"
  using advance_map_base_codes [OF set_listing_remdups advance_witness_parsed advance_witness_map,
      of "''1''" "''3''"]
    set_listing_remdups advance_witness_parsed advance_witness_map
  by simp

lemma outs_witness_tokens:
  "re_match rx_adv_X_E ''2XH(E5)''" "re_match rx_adv_X ''1X2''" "\<not> re_match rx_adv_X_E ''1X2''"
  "re_match rx_adv_dash ''3-H''" "\<not> re_match rx_adv_X_E ''3-H''" "\<not> re_match rx_adv_dash ''2XH(E5)''"
  "\<not> re_match rx_adv_dash ''1X2''"
  by code_simp+

text \<open>
  The three parts of C4 on the advances \<^verbatim>\<open>2XH(E5);1X2;3-H\<close>, with a sub-event that puts
  the runner from second out.
\<close>

theorem players_out_and_explicit_advances_witness:
  "set_listing remdups
   \<and> re_match rx_adv_X_E ''2XH(E5)''
   \<and> ''2'' \<notin> set (playersOut remdups \<lparr>event = ''CS3'', mods = [], advs = [''2XH(E5)'', ''1X2'', ''3-H'']\<rparr>
        [\<lparr>sub_basicPlay = ''Runner Caught Stealing'', sub_playersOut = [''2''], sub_implicitAdvances = []\<rparr>])
   \<and> re_match rx_adv_X ''1X2'' \<and> \<not> re_match rx_adv_X_E ''1X2''
   \<and> ''1'' \<in> set (playersOut remdups \<lparr>event = ''CS3'', mods = [], advs = [''2XH(E5)'', ''1X2'', ''3-H'']\<rparr>
        [\<lparr>sub_basicPlay = ''Runner Caught Stealing'', sub_playersOut = [''2''], sub_implicitAdvances = []\<rparr>])
   \<and> re_match rx_adv_dash ''3-H''
   \<and> ''3'' \<notin> set (playersOut remdups \<lparr>event = ''CS3'', mods = [], advs = [''2XH(E5)'', ''1X2'', ''3-H'']\<rparr>
        [\<lparr>sub_basicPlay = ''Runner Caught Stealing'', sub_playersOut = [''2''], sub_implicitAdvances = []\<rparr>])"
proof -
  let ?ps = "\<lparr>event = ''CS3'', mods = [], advs = [''2XH(E5)'', ''1X2'', ''3-H'']\<rparr>"
  let ?subs = "[\<lparr>sub_basicPlay = ''Runner Caught Stealing'', sub_playersOut = [''2''], sub_implicitAdvances = []\<rparr>]"
  note t = outs_witness_tokens
  have free: "\<forall>t \<in> set (advs ?ps). take 1 t = take 1 ''1X2'' \<longrightarrow>
      \<not> re_match rx_adv_X_E t \<and> \<not> re_match rx_adv_dash t"
    using t by simp
  have a: "take 1 ''2XH(E5)'' \<notin> set (playersOut remdups ?ps ?subs)"
    using players_out_and_explicit_advances [OF set_listing_remdups, of "''2XH(E5)''" ?ps ?subs] t
    by simp
  have b: "take 1 ''1X2'' \<in> set (playersOut remdups ?ps ?subs)"
    using players_out_and_explicit_advances [OF set_listing_remdups, of "''1X2''" ?ps ?subs] t free
    by simp
  have c: "take 1 ''3-H'' \<notin> set (playersOut remdups ?ps ?subs)"
    using players_out_and_explicit_advances [OF set_listing_remdups, of "''3-H''" ?ps ?subs] t
    by simp
  from a b c t set_listing_remdups show ?thesis by simp
qed

section \<open>Double plays\<close>

lemma nOuts_filter: "nOuts subs = int (length (filter (\<lambda>i. sub_basicPlay i = ''Out'') subs))"
  unfolding nOuts_def by (induction subs) auto

lemma po_loop_category: "fst (po_loop rs p out) \<in> {p, ''Picked Off Base - Error''}"
  by (induction rs p out rule: po_loop.induct) auto

lemma pocs_loop_category:
  "pocs_loop s rs p br out = Inr (p', out') \<Longrightarrow>
     p' \<in> {p, ''Picked Off Base Caught Stealing - Error''}"
  by (induction s rs p br out rule: pocs_loop.induct) (auto split: if_splits sum.splits)

lemma out_puts_one_out:
  assumes "subeventParser s = Inr sb" and "sub_basicPlay sb = ''Out''"
  shows "\<exists>x. sub_playersOut sb = [x]"
proof -
  have po: "fst (po_loop (re_findall_group rx_PO rx_error_group s) ''Picked Off Base'' []) \<noteq> ''Out''"
    using po_loop_category [of "re_findall_group rx_PO rx_error_group s" "''Picked Off Base''" "[]"]
    by auto
  have pocs: "\<And>p out. pocs_loop s (re_findall_group rx_POCS rx_error_group s)
        ''Picked Off Base Caught Stealing'' None [] = Inr (p, out) \<Longrightarrow> p \<noteq> ''Out''"
    by (auto dest: pocs_loop_category)
  show ?thesis
    using assms po pocs unfolding subeventParser_def result_def Let_def
    by (auto split: if_splits sum.splits prod.splits)
qed


lemma filter_length_two: "length (filter P xs) = 2 \<Longrightarrow> \<exists>a b. filter P xs = [a, b]"
  by (cases "filter P xs"; simp) (metis length_0_conv Suc_length_conv)

lemma set_concat_split:
  "(\<Union>i \<in> set xs. f i) = (\<Union>i \<in> set (filter P xs). f i) \<union> (\<Union>i \<in> set (filter (\<lambda>i. \<not> P i) xs). f i)"
  by auto

lemma row_64_1_3_B1:
  "enhancePlays remdups ''64(1)3.B-1'' =
     Inr \<lparr>col_playSplit = \<lparr>event = ''64(1)3'', mods = [], advs = [''B-1'']\<rparr>,
          col_subevents = [''64(1)'', ''3''],
          col_subeventParsed =
            [\<lparr>sub_basicPlay = ''Out'', sub_playersOut = [''1''], sub_implicitAdvances = []\<rparr>,
             \<lparr>sub_basicPlay = ''Out'', sub_playersOut = [''B''], sub_implicitAdvances = []\<rparr>],
          col_basicPlayDesc = ''Double Play'', col_fullPlayDesc = ''Double Play'',
          col_playersOut = [''1''], col_outsOnPlay = 1,
          col_playerAdvances = [(''B'', ''1'')], col_runsScored = 0\<rparr>"
  by code_simp

lemma row_64_1_3_3XH:
  "enhancePlays remdups ''64(1)3.3XH'' =
     Inr \<lparr>col_playSplit = \<lparr>event = ''64(1)3'', mods = [], advs = [''3XH'']\<rparr>,
          col_subevents = [''64(1)'', ''3''],
          col_subeventParsed =
            [\<lparr>sub_basicPlay = ''Out'', sub_playersOut = [''1''], sub_implicitAdvances = []\<rparr>,
             \<lparr>sub_basicPlay = ''Out'', sub_playersOut = [''B''], sub_implicitAdvances = []\<rparr>],
          col_basicPlayDesc = ''Double Play'', col_fullPlayDesc = ''Double Play'',
          col_playersOut = [''3'', ''1'', ''B''], col_outsOnPlay = 3,
          col_playerAdvances = [], col_runsScored = 0\<rparr>"
  by code_simp

text \<open>
  C5, as the code has it. For a play derived without an error whose first sub-event is an
  Out and which has exactly two sub-events of category Out, \<open>basicPlayDesc\<close> is
  \<^verbatim>\<open>Double Play\<close>. \<open>outsOnPlay\<close> counts the distinct bases put out after the advance
  tokens have been taken into account; it is 2 when the two Outs put out different bases,
  no other sub-event puts a player out, every out attempt among the advance tokens
  carries an error, and no token that exempts its base (an out attempt with an error, a
  successful advance) names a base the two Outs put out.
\<close>

theorem double_play_outs:
  assumes enum: "set_listing enum"
    and row: "enhancePlays enum play = Inr r"
    and first: "sub_basicPlay (hd (col_subeventParsed r)) = ''Out''"
    and two: "length (filter (\<lambda>i. sub_basicPlay i = ''Out'') (col_subeventParsed r)) = 2"
  shows "col_basicPlayDesc r = ''Double Play''
    \<and> (distinct (concat (map sub_playersOut
           (filter (\<lambda>i. sub_basicPlay i = ''Out'') (col_subeventParsed r))))
       \<and> (\<forall>i \<in> set (col_subeventParsed r). sub_basicPlay i \<noteq> ''Out'' \<longrightarrow> sub_playersOut i = [])
       \<and> (\<forall>t \<in> set (advs (col_playSplit r)). re_match rx_adv_X t \<longrightarrow> re_match rx_adv_X_E t)
       \<and> (\<forall>t \<in> set (advs (col_playSplit r)).
             re_match rx_adv_X_E t \<or> re_match rx_adv_dash t \<longrightarrow>
             take 1 t \<notin> set (concat (map sub_playersOut
               (filter (\<lambda>i. sub_basicPlay i = ''Out'') (col_subeventParsed r)))))
       \<longrightarrow> col_outsOnPlay r = 2)"
proof
  note c = enhancePlays_cols [OF row]
  let ?parsed = "col_subeventParsed r"
  let ?outs = "filter (\<lambda>i. sub_basicPlay i = ''Out'') ?parsed"
  have "length ?outs \<le> length ?parsed" by (rule length_filter_le)
  with two have len: "2 \<le> length ?parsed" by simp
  have n: "nOuts ?parsed = 2" using two by (simp add: nOuts_filter)
  from c(8) len first n show "col_basicPlayDesc r = ''Double Play''"
    by (simp add: basicPlayDesc_def split: if_splits)
  show "distinct (concat (map sub_playersOut ?outs))
       \<and> (\<forall>i \<in> set ?parsed. sub_basicPlay i \<noteq> ''Out'' \<longrightarrow> sub_playersOut i = [])
       \<and> (\<forall>t \<in> set (advs (col_playSplit r)). re_match rx_adv_X t \<longrightarrow> re_match rx_adv_X_E t)
       \<and> (\<forall>t \<in> set (advs (col_playSplit r)).
             re_match rx_adv_X_E t \<or> re_match rx_adv_dash t \<longrightarrow>
             take 1 t \<notin> set (concat (map sub_playersOut
               (filter (\<lambda>i. sub_basicPlay i = ''Out'') (col_subeventParsed r)))))
       \<longrightarrow> col_outsOnPlay r = 2"
  proof
    assume h: "distinct (concat (map sub_playersOut ?outs))
       \<and> (\<forall>i \<in> set ?parsed. sub_basicPlay i \<noteq> ''Out'' \<longrightarrow> sub_playersOut i = [])
       \<and> (\<forall>t \<in> set (advs (col_playSplit r)). re_match rx_adv_X t \<longrightarrow> re_match rx_adv_X_E t)
       \<and> (\<forall>t \<in> set (advs (col_playSplit r)).
             re_match rx_adv_X_E t \<or> re_match rx_adv_dash t \<longrightarrow>
             take 1 t \<notin> set (concat (map sub_playersOut
               (filter (\<lambda>i. sub_basicPlay i = ''Out'') (col_subeventParsed r)))))"
    from filter_length_two [OF two] obtain a b where ab: "?outs = [a, b]" by blast
    have mem: "a \<in> set ?parsed" "b \<in> set ?parsed" "sub_basicPlay a = ''Out''" "sub_basicPlay b = ''Out''"
    proof -
      have "set ?outs = {a, b}" using ab by simp
      then have "a \<in> set ?outs" "b \<in> set ?outs" by simp_all
      then show "a \<in> set ?parsed" "b \<in> set ?parsed"
        "sub_basicPlay a = ''Out''" "sub_basicPlay b = ''Out''" by simp_all
    qed
    have cls: "\<And>sb. sb \<in> set ?parsed \<Longrightarrow> \<exists>s. subeventParser s = Inr sb"
      using map_err_Inr [OF c(7)] by (auto simp: list_all2_conv_all_nth in_set_conv_nth)
    from cls mem out_puts_one_out obtain x y where
      xy: "sub_playersOut a = [x]" "sub_playersOut b = [y]" by blast
    with h ab have ne: "x \<noteq> y" by simp
    have noX: "{take 1 i | i. i \<in> set (advs (col_playSplit r)) \<and> re_match rx_adv_X i
                  \<and> \<not> re_match rx_adv_X_E i} = {}"
      using h by blast
    define N where "N = {take 1 i | i. i \<in> set (advs (col_playSplit r))
                  \<and> (re_match rx_adv_X_E i \<or> re_match rx_adv_dash i)}"
    have xyset: "set (concat (map sub_playersOut ?outs)) = {x, y}" by (simp add: ab xy)
    have away: "\<And>t. t \<in> set (advs (col_playSplit r)) \<Longrightarrow>
        re_match rx_adv_X_E t \<or> re_match rx_adv_dash t \<Longrightarrow> take 1 t \<notin> {x, y}"
      using h unfolding xyset by blast
    have "x \<notin> N" "y \<notin> N"
      unfolding N_def using away by blast+
    then have noN: "{x, y} - N = {x, y}" by blast
    have others: "(\<Union>i \<in> set (filter (\<lambda>i. \<not> sub_basicPlay i = ''Out'') ?parsed).
        set (sub_playersOut i)) = {}"
      using h by auto
    have "(\<Union>i \<in> set ?parsed. set (sub_playersOut i)) = {x, y}"
      using set_concat_split [where xs = ?parsed and f = "\<lambda>i. set (sub_playersOut i)"
          and P = "\<lambda>i. sub_basicPlay i = ''Out''"]
      by (simp only: others ab) (auto simp: xy)
    then have "set (col_playersOut r) = {x, y}"
      unfolding c(1) set_playersOut [OF enum] noX N_def [symmetric] using noN by simp
    moreover have "distinct (col_playersOut r)"
      unfolding c(1) using enum by (rule playersOut_distinct)
    ultimately have "length (col_playersOut r) = 2"
      using ne distinct_card [of "col_playersOut r"] by simp
    then show "col_outsOnPlay r = 2" by (simp add: c(2))
  qed
qed


text \<open>The double play \<^verbatim>\<open>64(1)3.3-H\<close>: two Outs, two players out, the runner from third scores.\<close>

theorem double_play_outs_witness:
  "set_listing remdups
   \<and> (\<exists>r. enhancePlays remdups ''64(1)3.3-H'' = Inr r
        \<and> map sub_basicPlay (col_subeventParsed r) = [''Out'', ''Out'']
        \<and> map sub_playersOut (col_subeventParsed r) = [[''1''], [''B'']]
        \<and> advs (col_playSplit r) = [''3-H'']
        \<and> col_basicPlayDesc r = ''Double Play'' \<and> col_outsOnPlay r = 2)"
proof -
  let ?r = "\<lparr>col_playSplit = \<lparr>event = ''64(1)3'', mods = [], advs = [''3-H'']\<rparr>,
          col_subevents = [''64(1)'', ''3''],
          col_subeventParsed =
            [\<lparr>sub_basicPlay = ''Out'', sub_playersOut = [''1''], sub_implicitAdvances = []\<rparr>,
             \<lparr>sub_basicPlay = ''Out'', sub_playersOut = [''B''], sub_implicitAdvances = []\<rparr>],
          col_basicPlayDesc = ''Double Play'', col_fullPlayDesc = ''Double Play'',
          col_playersOut = [''1'', ''B''], col_outsOnPlay = 2,
          col_playerAdvances = [(''3'', ''H'')], col_runsScored = 1\<rparr>"
  have t: "\<not> re_match rx_adv_X ''3-H''" "\<not> re_match rx_adv_X_E ''3-H''" by code_simp+
  have "col_basicPlayDesc ?r = ''Double Play'' \<and> col_outsOnPlay ?r = 2"
    using double_play_outs [OF set_listing_remdups row_64_1_3_3H] t by simp
  with row_64_1_3_3H set_listing_remdups show ?thesis by simp
qed

text \<open>
  Two plays with exactly two Out sub-events, the first an Out, whose \<open>outsOnPlay\<close> is not
  2: in \<^verbatim>\<open>64(1)3.B-1\<close> the explicit advance of the batter takes him out of
  \<open>playersOut\<close>, which leaves 1; in \<^verbatim>\<open>64(1)3.3XH\<close> the runner put out at home is a
  third player out.
\<close>

theorem double_play_outs_counterexample:
  "enhancePlays remdups ''64(1)3.B-1'' =
     Inr \<lparr>col_playSplit = \<lparr>event = ''64(1)3'', mods = [], advs = [''B-1'']\<rparr>,
          col_subevents = [''64(1)'', ''3''],
          col_subeventParsed =
            [\<lparr>sub_basicPlay = ''Out'', sub_playersOut = [''1''], sub_implicitAdvances = []\<rparr>,
             \<lparr>sub_basicPlay = ''Out'', sub_playersOut = [''B''], sub_implicitAdvances = []\<rparr>],
          col_basicPlayDesc = ''Double Play'', col_fullPlayDesc = ''Double Play'',
          col_playersOut = [''1''], col_outsOnPlay = 1,
          col_playerAdvances = [(''B'', ''1'')], col_runsScored = 0\<rparr>
   \<and> enhancePlays remdups ''64(1)3.3XH'' =
     Inr \<lparr>col_playSplit = \<lparr>event = ''64(1)3'', mods = [], advs = [''3XH'']\<rparr>,
          col_subevents = [''64(1)'', ''3''],
          col_subeventParsed =
            [\<lparr>sub_basicPlay = ''Out'', sub_playersOut = [''1''], sub_implicitAdvances = []\<rparr>,
             \<lparr>sub_basicPlay = ''Out'', sub_playersOut = [''B''], sub_implicitAdvances = []\<rparr>],
          col_basicPlayDesc = ''Double Play'', col_fullPlayDesc = ''Double Play'',
          col_playersOut = [''3'', ''1'', ''B''], col_outsOnPlay = 3,
          col_playerAdvances = [], col_runsScored = 0\<rparr>"
  using row_64_1_3_B1 row_64_1_3_3XH by (rule conjI)

section \<open>Balanced brackets\<close>

lemma nb_after_Nil: "nb_brackets_after [] = 0"
  by (simp add: nb_brackets_after_def)

lemma nb_after_Cons:
  "nb_brackets_after (c # s) =
     (if c = CHR ''('' then 1 else if c = CHR '')'' then - 1 else 0) + nb_brackets_after s"
  by (simp add: nb_brackets_after_def)

text \<open>The counter, started at \<open>d\<close>, is negative after some prefix of \<open>s\<close>.\<close>

lemma neg_prefix_Nil:
  "(\<exists>k \<le> length ([] :: string). d + nb_brackets_after (take k []) < 0) \<longleftrightarrow> d < 0"
  by (simp add: nb_after_Nil)

lemma neg_prefix_Cons:
  "(\<exists>k \<le> length (c # s). d + nb_brackets_after (take k (c # s)) < 0) \<longleftrightarrow>
     d < 0 \<or> (\<exists>k \<le> length s.
        d + (if c = CHR ''('' then 1 else if c = CHR '')'' then - 1 else 0)
          + nb_brackets_after (take k s) < 0)"
  (is "?L \<longleftrightarrow> ?R")
proof
  assume ?L
  then obtain k where k: "k \<le> length (c # s)" "d + nb_brackets_after (take k (c # s)) < 0" by blast
  show ?R
  proof (cases k)
    case 0
    with k show ?thesis by (simp add: nb_after_Nil)
  next
    case (Suc j)
    with k have "j \<le> length s" 
      "d + (if c = CHR ''('' then 1 else if c = CHR '')'' then - 1 else 0)
          + nb_brackets_after (take j s) < 0"
      by (simp_all add: nb_after_Cons)
    then show ?thesis by blast
  qed
next
  assume ?R
  then show ?L
  proof
    assume "d < 0"
    then have "0 \<le> length (c # s) \<and> d + nb_brackets_after (take 0 (c # s)) < 0"
      by (simp add: nb_after_Nil)
    then show ?L by blast
  next
    assume "\<exists>k \<le> length s.
        d + (if c = CHR ''('' then 1 else if c = CHR '')'' then - 1 else 0)
          + nb_brackets_after (take k s) < 0"
    then obtain j where "j \<le> length s"
      "d + (if c = CHR ''('' then 1 else if c = CHR '')'' then - 1 else 0)
          + nb_brackets_after (take j s) < 0" by blast
    then have "Suc j \<le> length (c # s) \<and> d + nb_brackets_after (take (Suc j) (c # s)) < 0"
      by (simp add: nb_after_Cons)
    then show ?L by blast
  qed
qed

lemma split_loop_result:
  assumes "0 \<le> nb"
  shows "if \<exists>k \<le> length s. nb + nb_brackets_after (take k s) < 0
         then split_loop sep i nb l s = Inl Syntax_error
         else \<exists>l'. split_loop sep i nb l s = Inr (nb + nb_brackets_after s, l')"
  using assms
proof (induction s arbitrary: i nb l)
  case Nil
  then show ?case by (simp add: nb_after_Nil)
next
  case (Cons c s)
  define d :: int where "d = (if c = CHR ''('' then 1 else if c = CHR '')'' then - 1 else 0)"
  define l2 where "l2 = (if c \<noteq> CHR ''('' \<and> c \<noteq> CHR '')'' \<and> re_match sep [c] \<and> nb = 0
     then l @ [i] else l)"
  have step: "split_loop sep i nb l (c # s) =
      (if nb + d < 0 then Inl Syntax_error else split_loop sep (Suc i) (nb + d) l2 s)"
    by (simp add: d_def l2_def)
  have neg: "(\<exists>k \<le> length (c # s). nb + nb_brackets_after (take k (c # s)) < 0) \<longleftrightarrow>
      (\<exists>k \<le> length s. nb + d + nb_brackets_after (take k s) < 0)"
    unfolding neg_prefix_Cons d_def using Cons.prems by simp
  have tot: "nb + nb_brackets_after (c # s) = nb + d + nb_brackets_after s"
    by (simp add: nb_after_Cons d_def)
  show ?case
  proof (cases "nb + d < 0")
    case True
    then have "\<exists>k \<le> length s. nb + d + nb_brackets_after (take k s) < 0"
      by (intro exI [of _ 0]) (simp add: nb_after_Nil)
    with True show ?thesis
      unfolding neg step by simp
  next
    case False
    then have "0 \<le> nb + d" by simp
    from Cons.IH [OF this, of "Suc i" l2] False show ?thesis
      unfolding neg step tot by simp
  qed
qed

lemma event_loop_result:
  assumes "0 \<le> nb"
  shows "if \<exists>k \<le> length s. nb + nb_brackets_after (take k s) < 0
         then event_loop i nb prev l s = Inl Syntax_error
         else \<exists>l'. event_loop i nb prev l s = Inr (nb + nb_brackets_after s, l')"
  using assms
proof (induction s arbitrary: i nb prev l)
  case Nil
  then show ?case by (simp add: nb_after_Nil)
next
  case (Cons c s)
  define d :: int where "d = (if c = CHR ''('' then 1 else if c = CHR '')'' then - 1 else 0)"
  define l2 where "l2 = (if c \<noteq> CHR ''('' \<and> c \<noteq> CHR '')'' \<and> prev \<and> nb = 0
     then l @ [i] else l)"
  have step: "event_loop i nb prev l (c # s) =
      (if nb + d < 0 then Inl Syntax_error
       else event_loop (Suc i) (nb + d) (c = CHR '')'') l2 s)"
    by (simp add: d_def l2_def)
  have neg: "(\<exists>k \<le> length (c # s). nb + nb_brackets_after (take k (c # s)) < 0) \<longleftrightarrow>
      (\<exists>k \<le> length s. nb + d + nb_brackets_after (take k s) < 0)"
    unfolding neg_prefix_Cons d_def using Cons.prems by simp
  have tot: "nb + nb_brackets_after (c # s) = nb + d + nb_brackets_after s"
    by (simp add: nb_after_Cons d_def)
  show ?case
  proof (cases "nb + d < 0")
    case True
    then have "\<exists>k \<le> length s. nb + d + nb_brackets_after (take k s) < 0"
      by (intro exI [of _ 0]) (simp add: nb_after_Nil)
    with True show ?thesis
      unfolding neg step by simp
  next
    case False
    then have "0 \<le> nb + d" by simp
    from Cons.IH [OF this, of "Suc i" "c = CHR '')''" l2] False show ?thesis
      unfolding neg step tot by simp
  qed
qed


lemma nb_after_parens:
  "nb_brackets_after (filter (\<lambda>c. c = CHR ''('' \<or> c = CHR '')'') s) = nb_brackets_after s"
  by (induction s) (auto simp: nb_after_Cons nb_after_Nil)

lemma neg_prefix_parens:
  "(\<exists>k \<le> length (filter (\<lambda>c. c = CHR ''('' \<or> c = CHR '')'') s).
       d + nb_brackets_after (take k (filter (\<lambda>c. c = CHR ''('' \<or> c = CHR '')'') s)) < 0)
   \<longleftrightarrow> (\<exists>k \<le> length s. d + nb_brackets_after (take k s) < 0)"
proof (induction s arbitrary: d)
  case Nil
  then show ?case by simp
next
  case (Cons c s)
  show ?case
  proof (cases "c = CHR ''('' \<or> c = CHR '')''")
    case True
    then have f: "filter (\<lambda>c. c = CHR ''('' \<or> c = CHR '')'') (c # s) =
        c # filter (\<lambda>c. c = CHR ''('' \<or> c = CHR '')'') s" by simp
    show ?thesis
      by (simp only: f neg_prefix_Cons Cons.IH)
  next
    case False
    have "d < 0 \<Longrightarrow> \<exists>k \<le> length s. d + nb_brackets_after (take k s) < 0"
      by (intro exI [of _ 0]) (simp add: nb_after_Nil)
    with False show ?thesis
      using Cons.IH [of d] unfolding neg_prefix_Cons by auto
  qed
qed

lemma unbalanced_parens:
  "unbalanced (filter (\<lambda>c. c = CHR ''('' \<or> c = CHR '')'') s) = unbalanced s"
  unfolding unbalanced_def using neg_prefix_parens [of s 0] by (simp add: nb_after_parens)

lemma unbalanced_same_parens:
  "filter (\<lambda>c. c = CHR ''('' \<or> c = CHR '')'') s = filter (\<lambda>c. c = CHR ''('' \<or> c = CHR '')'') t
     \<Longrightarrow> unbalanced s = unbalanced t"
  by (metis unbalanced_parens)

lemma scan_keeps:
  assumes "scan mt gap s = (ps, t)"
    and "\<And>s x r. mt s = Some (x, r) \<Longrightarrow> length r < length s \<Longrightarrow>
             \<exists>y. s = y @ r \<and> filter P y = []"
  shows "filter P (concat (map fst ps) @ t) = filter P (gap @ s)"
  using assms
proof (induction mt gap s arbitrary: ps t rule: scan.induct)
  case (1 mt gap)
  then show ?case by simp
next
  case (2 mt gap c s)
  note keeps = "2.prems"(2)
  show ?case
  proof (cases "mt (c # s)")
    case None
    with "2.IH"(1) [OF None _ keeps] "2.prems"(1) show ?thesis by simp
  next
    case (Some xr)
    obtain x r where xr: "xr = (x, r)" by (cases xr)
    show ?thesis
    proof (cases "length r < length (c # s)")
      case True
      obtain ps' t' where rec: "scan mt [] r = (ps', t')" by (cases "scan mt [] r")
      from "2.prems"(1) Some xr True rec have res: "ps = (gap, x) # ps'" "t = t'" by auto
      from "2.IH"(2) [OF Some xr [symmetric] True rec keeps]
      have inner: "filter P (concat (map fst ps') @ t') = filter P r" by simp
      from Some xr have "mt (c # s) = Some (x, r)" by simp
      from keeps [OF this True] obtain y where y: "c # s = y @ r" "filter P y = []" by blast
      have "filter P (gap @ c # s) = filter P gap @ filter P r"
        unfolding y(1) by (simp add: y(2))
      moreover have "filter P (concat (map fst ps) @ t) = filter P gap @ filter P r"
        using inner by (simp add: res)
      ultimately show ?thesis by simp
    next
      case False
      with "2.IH"(3) [OF Some xr [symmetric] False _ keeps] "2.prems"(1) Some xr
      show ?thesis by simp
    qed
  qed
qed


lemma first_match_rest: "first_match n p s = Some (x, r) \<Longrightarrow> r \<in> set (rests n p s)"
  by (auto simp: first_match_def split: list.splits)

lemma edge_seps_rest:
  assumes "sep = sep_slash_dot \<or> sep = sep_plus" and "r \<in> set (rests n (edge_seps sep) s)"
  shows "\<exists>c. s = c # r \<and> c \<noteq> CHR ''('' \<and> c \<noteq> CHR '')''"
  using assms unfolding edge_seps_def sep_slash_dot_def sep_plus_def
  by (elim disjE; simp only: in_rests) auto

lemma re_sub_edge_seps_parens:
  assumes "sep = sep_slash_dot \<or> sep = sep_plus"
  shows "filter (\<lambda>c. c = CHR ''('' \<or> c = CHR '')'') (re_sub_empty (edge_seps sep) s) =
         filter (\<lambda>c. c = CHR ''('' \<or> c = CHR '')'') s"
proof -
  obtain ps t where sc: "scan (first_match (length s) (edge_seps sep)) [] s = (ps, t)"
    by (cases "scan (first_match (length s) (edge_seps sep)) [] s")
  have "filter (\<lambda>c. c = CHR ''('' \<or> c = CHR '')'') (concat (map fst ps) @ t) =
        filter (\<lambda>c. c = CHR ''('' \<or> c = CHR '')'') ([] @ s)"
  proof (rule scan_keeps [OF sc])
    fix s' x r
    assume "first_match (length s) (edge_seps sep) s' = Some (x, r)"
    then have "r \<in> set (rests (length s) (edge_seps sep) s')" by (rule first_match_rest)
    from edge_seps_rest [OF assms this] obtain c where
      "s' = c # r" "c \<noteq> CHR ''(''" "c \<noteq> CHR '')''" by blast
    then have "s' = [c] @ r \<and> filter (\<lambda>c. c = CHR ''('' \<or> c = CHR '')'') [c] = []" by simp
    then show "\<exists>y. s' = y @ r \<and> filter (\<lambda>c. c = CHR ''('' \<or> c = CHR '')'') y = []" by blast
  qed
  then show ?thesis by (simp add: re_sub_empty_def sc)
qed

lemma unbalanced_re_sub:
  "sep = sep_slash_dot \<or> sep = sep_plus \<Longrightarrow>
     unbalanced (re_sub_empty (edge_seps sep) s) = unbalanced s"
  by (rule unbalanced_same_parens) (rule re_sub_edge_seps_parens)

lemma not_neg_prefix_whole:
  "\<not> (\<exists>k \<le> length s. nb_brackets_after (take k s) < 0) \<Longrightarrow> 0 \<le> nb_brackets_after s"
  by (metis order_refl take_all not_le)

lemma split_loop_unbalanced:
  "if unbalanced s
   then split_loop sep 0 0 [0] s = Inl Syntax_error
        \<or> (\<exists>nb l. split_loop sep 0 0 [0] s = Inr (nb, l) \<and> 0 < nb)
   else \<exists>l. split_loop sep 0 0 [0] s = Inr (0, l)"
  using split_loop_result [of 0 s sep 0 "[0]"] not_neg_prefix_whole [of s]
  unfolding unbalanced_def by (auto split: if_splits)

lemma event_loop_unbalanced:
  "if unbalanced s
   then event_loop 0 0 False [0] s = Inl Syntax_error
        \<or> (\<exists>nb l. event_loop 0 0 False [0] s = Inr (nb, l) \<and> 0 < nb)
   else \<exists>l. event_loop 0 0 False [0] s = Inr (0, l)"
  using event_loop_result [of 0 s 0 False "[0]"] not_neg_prefix_whole [of s]
  unfolding unbalanced_def by (auto split: if_splits)

lemma event_splitter_unbalanced:
  "if unbalanced s then event_splitter s = Inl Syntax_error
   else \<exists>segs. event_splitter s = Inr segs"
  using event_loop_unbalanced [of s] unfolding event_splitter_def
  by (auto split: if_splits)

lemma split_sep_unbalanced:
  assumes "sep = sep_slash_dot \<or> sep = sep_plus"
  shows "if unbalanced s then split_sep_rspct_paren s sep = Inl Syntax_error
         else \<exists>segs. split_sep_rspct_paren s sep = Inr segs"
  using split_loop_unbalanced [of "re_sub_empty (edge_seps sep) s" sep]
  unfolding split_sep_rspct_paren_def Let_def unbalanced_re_sub [OF assms]
  by (auto split: if_splits)

text \<open>
  C6. \<^verbatim>\<open>split_sep_rspct_paren\<close>, with either separator pattern the source passes, and
  \<^verbatim>\<open>_event_splitter\<close> raise the syntax error exactly when the brackets of the input are
  unbalanced: the counter goes negative somewhere in the scan, or it is not 0 at the end.
  They return a list of segments exactly when the brackets are balanced, and then the
  scan ends with the counter at 0 without having raised on a negative counter. The input
  \<^verbatim>\<open>46(1\<close> raises in each of them, and in \<^verbatim>\<open>_subevent_splitter\<close>.
\<close>

theorem syntax_error_iff_unbalanced:
  "(split_sep_rspct_paren s sep_slash_dot = Inl Syntax_error \<longleftrightarrow> unbalanced s)
   \<and> (split_sep_rspct_paren s sep_plus = Inl Syntax_error \<longleftrightarrow> unbalanced s)
   \<and> (event_splitter s = Inl Syntax_error \<longleftrightarrow> unbalanced s)
   \<and> ((\<exists>segs. split_sep_rspct_paren s sep_slash_dot = Inr segs) \<longleftrightarrow> \<not> unbalanced s)
   \<and> ((\<exists>segs. split_sep_rspct_paren s sep_plus = Inr segs) \<longleftrightarrow> \<not> unbalanced s)
   \<and> ((\<exists>segs. event_splitter s = Inr segs) \<longleftrightarrow> \<not> unbalanced s)
   \<and> ((\<exists>l. split_loop sep_slash_dot 0 0 [0] (re_sub_empty (edge_seps sep_slash_dot) s) = Inr (0, l))
        \<longleftrightarrow> \<not> unbalanced s)
   \<and> ((\<exists>l. split_loop sep_plus 0 0 [0] (re_sub_empty (edge_seps sep_plus) s) = Inr (0, l))
        \<longleftrightarrow> \<not> unbalanced s)
   \<and> ((\<exists>l. event_loop 0 0 False [0] s = Inr (0, l)) \<longleftrightarrow> \<not> unbalanced s)
   \<and> split_sep_rspct_paren ''46(1'' sep_slash_dot = Inl Syntax_error
   \<and> split_sep_rspct_paren ''46(1'' sep_plus = Inl Syntax_error
   \<and> event_splitter ''46(1'' = Inl Syntax_error
   \<and> subevent_splitter ''46(1'' = Inl Syntax_error"
proof -
  have a: "sep_slash_dot = sep_slash_dot \<or> sep_slash_dot = sep_plus"
    and b: "sep_plus = sep_slash_dot \<or> sep_plus = sep_plus" by simp_all
  have 1: "split_sep_rspct_paren s sep_slash_dot = Inl Syntax_error \<longleftrightarrow> unbalanced s"
    and 4: "(\<exists>segs. split_sep_rspct_paren s sep_slash_dot = Inr segs) \<longleftrightarrow> \<not> unbalanced s"
    using split_sep_unbalanced [OF a, of s] by (auto split: if_splits)
  have 2: "split_sep_rspct_paren s sep_plus = Inl Syntax_error \<longleftrightarrow> unbalanced s"
    and 5: "(\<exists>segs. split_sep_rspct_paren s sep_plus = Inr segs) \<longleftrightarrow> \<not> unbalanced s"
    using split_sep_unbalanced [OF b, of s] by (auto split: if_splits)
  have 3: "event_splitter s = Inl Syntax_error \<longleftrightarrow> unbalanced s"
    and 6: "(\<exists>segs. event_splitter s = Inr segs) \<longleftrightarrow> \<not> unbalanced s"
    using event_splitter_unbalanced [of s] by (auto split: if_splits)
  have 7: "(\<exists>l. split_loop sep_slash_dot 0 0 [0] (re_sub_empty (edge_seps sep_slash_dot) s) = Inr (0, l))
        \<longleftrightarrow> \<not> unbalanced s"
    using split_loop_unbalanced [of "re_sub_empty (edge_seps sep_slash_dot) s" sep_slash_dot]
    unfolding unbalanced_re_sub [OF a] by (auto split: if_splits)
  have 8: "(\<exists>l. split_loop sep_plus 0 0 [0] (re_sub_empty (edge_seps sep_plus) s) = Inr (0, l))
        \<longleftrightarrow> \<not> unbalanced s"
    using split_loop_unbalanced [of "re_sub_empty (edge_seps sep_plus) s" sep_plus]
    unfolding unbalanced_re_sub [OF b] by (auto split: if_splits)
  have 9: "(\<exists>l. event_loop 0 0 False [0] s = Inr (0, l)) \<longleftrightarrow> \<not> unbalanced s"
    using event_loop_unbalanced [of s] by (auto split: if_splits)
  have 10: "split_sep_rspct_paren ''46(1'' sep_slash_dot = Inl Syntax_error" by code_simp
  have 11: "split_sep_rspct_paren ''46(1'' sep_plus = Inl Syntax_error" by code_simp
  have 12: "event_splitter ''46(1'' = Inl Syntax_error" by code_simp
  have 13: "subevent_splitter ''46(1'' = Inl Syntax_error" by code_simp
  from 1 2 3 4 5 6 7 8 9 10 11 12 13 show ?thesis by (intro conjI)
qed

section \<open>The classifier returns\<close>

lemma first_match_text:
  "first_match n p s = Some (x, r) \<Longrightarrow> x = take (length s - length r) s"
  by (auto simp: first_match_def split: list.splits)

lemma scan_matches:
  "(g, x) \<in> set (fst (scan mt gap s)) \<Longrightarrow> \<exists>s' r. mt s' = Some (x, r)"
proof (induction mt gap s rule: scan.induct)
  case (1 mt gap)
  then show ?case by simp
next
  case (2 mt gap c s)
  show ?case
  proof (cases "mt (c # s)")
    case None
    with 2 show ?thesis by simp
  next
    case (Some xr)
    obtain y r where xr: "xr = (y, r)" by (cases xr)
    show ?thesis
    proof (cases "length r < length (c # s)")
      case True
      with "2.prems" Some xr have "(g, x) = (gap, y) \<or> (g, x) \<in> set (fst (scan mt [] r))"
        by (auto split: prod.splits)
      then show ?thesis
      proof
        assume "(g, x) = (gap, y)"
        with Some xr show ?thesis by auto
      next
        assume "(g, x) \<in> set (fst (scan mt [] r))"
        with "2.IH"(2) [OF Some xr [symmetric] True] show ?thesis by blast
      qed
    next
      case False
      with 2 Some xr show ?thesis by simp
    qed
  qed
qed

lemma findall_matches:
  assumes "x \<in> set (re_findall p s)"
  shows "\<exists>s' r. r \<in> set (rests (length s) p s') \<and> x = take (length s' - length r) s'"
proof -
  from assms obtain g where "(g, x) \<in> set (fst (scan (first_match (length s) p) [] s))"
    by (auto simp: re_findall_def)
  from scan_matches [OF this] obtain s' r where "first_match (length s) p s' = Some (x, r)"
    by blast
  with first_match_rest first_match_text show ?thesis by blast
qed

lemma findall_CS:
  assumes "x \<in> set (re_findall rx_CS s)"
  shows "\<exists>c. x = ''CS'' @ [c] \<and> c \<in> set ''23H''"
proof -
  from findall_matches [OF assms] obtain s' r where
    r: "r \<in> set (rests (length s) rx_CS s')" and x: "x = take (length s' - length r) s'" by blast
  from r obtain c where "s' = ''CS'' @ c # r" "c \<in> set ''23H''"
    unfolding rx_CS_def by (simp only: in_rests) auto
  with x show ?thesis by simp
qed

lemma findall_POCS:
  assumes "x \<in> set (re_findall rx_POCS s)"
  shows "\<exists>c. x = ''POCS'' @ [c] \<and> c \<in> set ''23H''"
proof -
  from findall_matches [OF assms] obtain s' r where
    r: "r \<in> set (rests (length s) rx_POCS s')" and x: "x = take (length s' - length r) s'" by blast
  from r obtain c where "s' = ''POCS'' @ c # r" "c \<in> set ''23H''"
    unfolding rx_POCS_def by (simp only: in_rests) auto
  with x show ?thesis by simp
qed

lemma cs_loop_total:
  "\<forall>x \<in> set rs. \<exists>c. x = ''CS'' @ [c] \<and> c \<in> set ''23H'' \<Longrightarrow> \<exists>res. cs_loop rs br out = Inr res"
proof (induction rs br out rule: cs_loop.induct)
  case (1 br out)
  then show ?case by simp
next
  case (2 r rs br out)
  then obtain c where c: "r = ''CS'' @ [c]" "c \<in> set ''23H''" by auto
  then have "strip ''CS'' r = [c]" by (auto simp: strip_def)
  with c obtain b where b: "base_before (strip ''CS'' r) br = Some b"
    by (auto simp: base_before_def)
  with "2.IH" [OF b] "2.prems" show ?case by simp
qed

lemma pocs_inner_total:
  "\<forall>x \<in> set rs. \<exists>c. x = ''POCS'' @ [c] \<and> c \<in> set ''23H'' \<Longrightarrow>
     \<exists>res. pocs_inner rs br out = Inr res"
proof (induction rs br out rule: pocs_inner.induct)
  case (1 br out)
  then show ?case by simp
next
  case (2 r rs br out)
  then obtain c where c: "r = ''POCS'' @ [c]" "c \<in> set ''23H''" by auto
  then have s: "strip ''POCS'' r = [c]" by (auto simp: strip_def)
  with c obtain b where b: "base_before [c] br = Some b"
    by (auto simp: base_before_def)
  with "2.IH" [OF s b] "2.prems" s show ?case by simp
qed

lemma pocs_loop_total: "\<exists>res. pocs_loop s rs p br out = Inr res"
proof (induction s rs p br out rule: pocs_loop.induct)
  case (1 s p br out)
  then show ?case by simp
next
  case (2 s r rs p br out)
  show ?case
  proof (cases "re_search rx_E19 r")
    case True
    with "2.IH"(1) show ?thesis by simp
  next
    case False
    from pocs_inner_total [of "re_findall rx_POCS s" br out] findall_POCS
    obtain br' out' where i: "pocs_inner (re_findall rx_POCS s) br out = Inr (br', out')"
      by (metis surj_pair)
    with "2.IH"(2) [OF False i refl] False show ?thesis by simp
  qed
qed

lemma subeventParser_total: "\<exists>sb. subeventParser s = Inr sb"
proof -
  obtain res where cs: "cs_loop (re_findall rx_CS s) None [] = Inr res"
    using cs_loop_total [of "re_findall rx_CS s" None "[]"] findall_CS by blast
  obtain res' where pocs: "pocs_loop s (re_findall_group rx_POCS rx_error_group s)
      ''Picked Off Base Caught Stealing'' None [] = Inr res'"
    using pocs_loop_total by blast
  show ?thesis
    unfolding subeventParser_def result_def Let_def
    by (simp add: cs pocs split: prod.splits)
qed

lemma no_rule_unclassified:
  assumes "\<forall>p \<in> set rule_patterns. \<not> re_match p s"
  shows "subeventParser s =
    Inr \<lparr>sub_basicPlay = '''', sub_playersOut = [], sub_implicitAdvances = []\<rparr>"
  using assms unfolding rule_patterns_def subeventParser_def result_def by simp

text \<open>
  C7. \<^verbatim>\<open>_subeventParser\<close> returns a result for every string: the unassigned local and the
  empty index that its loops could meet are never reached. When none of the patterns of
  its rules matches, the result is the empty category with no players out and no implicit
  advance.
\<close>

theorem classifier_total:
  "(\<exists>sb. subeventParser s = Inr sb)
   \<and> ((\<forall>p \<in> set rule_patterns. \<not> re_match p s) \<longrightarrow>
        subeventParser s =
          Inr \<lparr>sub_basicPlay = '''', sub_playersOut = [], sub_implicitAdvances = []\<rparr>)"
  using subeventParser_total [of s] no_rule_unclassified [of s] by blast

text \<open>No rule matches \<^verbatim>\<open>XX\<close>.\<close>

theorem classifier_total_witness:
  "list_all (\<lambda>p. \<not> re_match p ''XX'') rule_patterns
   \<and> subeventParser ''XX'' =
       Inr \<lparr>sub_basicPlay = '''', sub_playersOut = [], sub_implicitAdvances = []\<rparr>"
proof -
  have none: "list_all (\<lambda>p. \<not> re_match p ''XX'') rule_patterns" by code_simp
  then have "\<forall>p \<in> set rule_patterns. \<not> re_match p ''XX''" by (simp add: list_all_iff)
  with classifier_total [of "''XX''"] none show ?thesis by blast
qed

section \<open>The segmenter\<close>













lemma map_err_is_map:
  assumes "map_err f xs = Inr ys" and "\<And>x y. f x = Inr y \<Longrightarrow> y = g x"
  shows "ys = map g xs"
  using assms(1)
proof (induction xs arbitrary: ys)
  case Nil
  then show ?case by simp
next
  case (Cons x xs)
  then show ?case by (auto split: sum.splits dest: assms(2))
qed

















text \<open>A chunk after the first keeps its \<^verbatim>\<open>+\<close> until \<^verbatim>\<open>strip('+')\<close>.\<close>

lemma cuts_compound:
  "drop_edge_plus ''+46(1)(E6)63+WP(+)+'' = ''46(1)(E6)63+WP(+)''
   \<and> cut_slices plus_at ''46(1)(E6)63+WP(+)'' = [''46(1)(E6)63'', ''+WP(+)'']
   \<and> cut_slices breaks_at ''46(1)(E6)63'' = [''46(1)(E6)'', ''63'']
   \<and> cut_slices breaks_at ''+WP(+)'' = [''+WP(+)'']"
  by code_simp



end
